theory Spec2Isabelle
  imports Main "HOL-Library.Sublist"
begin

section \<open>Strings and the JavaScript string methods the worker uses\<close>

text \<open>
  A JavaScript string is modelled as a \<^typ>\<open>string\<close>: a list of 8-bit characters, read
  as the code units below 256. The bytes of a stored object and the text read back
  from it (\<^verbatim>\<open>object.text()\<close>) are the same list: multi-byte UTF-8 sequences are
  outside the model. None of the characters the worker looks for lies outside ASCII.
\<close>

definition startsWith :: "string \<Rightarrow> string \<Rightarrow> bool" where
  "startsWith s t = prefix t s"

definition endsWith :: "string \<Rightarrow> string \<Rightarrow> bool" where
  "endsWith s t = suffix t s"

definition includes_str :: "string \<Rightarrow> string \<Rightarrow> bool" where
  "includes_str s t = sublist t s"

text \<open>
  \<^verbatim>\<open>toLowerCase\<close> on code units below 256: the ASCII capitals and the Latin-1
  capitals (\<open>0xC0\<close> to \<open>0xDE\<close> without the multiplication sign \<open>0xD7\<close>) move up by 32.
\<close>

definition toLowerCase_char :: "char \<Rightarrow> char" where
  "toLowerCase_char c =
     (let n = (of_char c :: nat)
      in if (65 \<le> n \<and> n \<le> 90) \<or> (192 \<le> n \<and> n \<le> 222 \<and> n \<noteq> 215)
         then char_of (n + 32) else c)"

definition toLowerCase :: "string \<Rightarrow> string" where
  "toLowerCase s = map toLowerCase_char s"

text \<open>
  \<^verbatim>\<open>s.split(c)\<close> for a one-character separator: never the empty array, the empty
  string gives one empty piece.
\<close>

fun split :: "char \<Rightarrow> string \<Rightarrow> string list" where
  "split c [] = [[]]"
| "split c (x # xs) =
     (if x = c then [] # split c xs
      else (case split c xs of [] \<Rightarrow> [[x]] | w # ws \<Rightarrow> (x # w) # ws))"

text \<open>\<^verbatim>\<open>parts.join(sep)\<close>.\<close>

fun join :: "string \<Rightarrow> string list \<Rightarrow> string" where
  "join sep [] = []"
| "join sep [w] = w"
| "join sep (w # ws) = w @ sep @ join sep ws"

section \<open>Errors\<close>

text \<open>
  The worker has no \<^verbatim>\<open>throw\<close> of its own; what it can raise comes from the language
  (\<open>TypeError\<close>: a property read on \<^verbatim>\<open>undefined\<close>, a call of a member that is not a
  function) and from the libraries it awaits (\<open>DecodeError\<close> from JSZip,
  \<open>StoreWriteError\<close> and \<open>StoreReadError\<close> from the bucket). \<open>EmptySiteError\<close> is the
  name the specification gives to resolving an empty site; no path of the worker
  raises it.
\<close>

datatype error = TypeError | DecodeError | StoreWriteError | StoreReadError | EmptySiteError

section \<open>getMimeType\<close>

text \<open>
  \<^verbatim>\<open>mimeTypes[ext] || 'application/octet-stream'\<close> reads a property of an object
  literal. For the thirteen keys of the table the answer is the string written there.
  An object literal also answers for the members it inherits from
  \<^verbatim>\<open>Object.prototype\<close>; the extension has been lower-cased, and the inherited
  members with a lower-case name are \<^verbatim>\<open>constructor\<close> and \<^verbatim>\<open>__proto__\<close>. Both are
  truthy and neither is a string, so for these two extensions \<^verbatim>\<open>getMimeType\<close>
  returns a value that is not a string: \<open>Inherited\<close>.
\<close>

datatype mime = Mime string | Inherited

definition mimeTypes :: "(string \<times> string) list" where
  "mimeTypes =
     [(''html'', ''text/html''),
      (''htm'', ''text/html''),
      (''css'', ''text/css''),
      (''js'', ''application/javascript''),
      (''json'', ''application/json''),
      (''png'', ''image/png''),
      (''jpg'', ''image/jpeg''),
      (''jpeg'', ''image/jpeg''),
      (''gif'', ''image/gif''),
      (''svg'', ''image/svg+xml''),
      (''txt'', ''text/plain''),
      (''pdf'', ''application/pdf''),
      (''zip'', ''application/zip'')]"

definition inherited_members :: "string list" where
  "inherited_members = [''constructor'', ''__proto__'']"

definition getMimeType :: "string \<Rightarrow> mime" where
  "getMimeType filename =
     (let ext = toLowerCase (last (split (CHR ''.'') filename))
      in case map_of mimeTypes ext of
           Some t \<Rightarrow> Mime t
         | None \<Rightarrow> if ext \<in> set inherited_members then Inherited
                   else Mime ''application/octet-stream'')"

text \<open>
  \<^verbatim>\<open>t.includes('html')\<close> on what \<^verbatim>\<open>getMimeType\<close> returned: a string method, so a
  \<open>TypeError\<close> on the value that is not a string.
\<close>

fun mime_includes :: "mime \<Rightarrow> string \<Rightarrow> error + bool" where
  "mime_includes (Mime t) s = Inr (includes_str t s)"
| "mime_includes Inherited s = Inl TypeError"

section \<open>File entries and findEntryPoint\<close>

record FileEntry =
  name :: string
  type :: mime
  size_bytes :: nat
  path :: string

definition entryPoints :: "string list" where
  "entryPoints = [''index.html'', ''index.htm'', ''default.html'', ''default.htm'', ''main.html'']"

text \<open>
  \<^verbatim>\<open>files.filter(f => f.type.includes('html') || f.name.endsWith('.html'))\<close>: the
  callback runs on every element in order, so one entry whose type is not a string
  aborts the whole filter.
\<close>

fun html_filter :: "FileEntry list \<Rightarrow> error + FileEntry list" where
  "html_filter [] = Inr []"
| "html_filter (f # fs) =
     (case mime_includes (type f) ''html'' of
        Inl e \<Rightarrow> Inl e
      | Inr b \<Rightarrow>
          (case html_filter fs of
             Inl e \<Rightarrow> Inl e
           | Inr hs \<Rightarrow> Inr (if b \<or> endsWith (name f) ''.html'' then f # hs else hs)))"

text \<open>
  The loop over \<open>entryPoints\<close> returns the list's own string \<^verbatim>\<open>entry\<close> at the first
  one some file name lower-cases to. After the loop, \<^verbatim>\<open>files[0].name\<close> on an empty
  array reads a property of \<^verbatim>\<open>undefined\<close>: a \<open>TypeError\<close>.
\<close>

definition findEntryPoint :: "FileEntry list \<Rightarrow> error + string" where
  "findEntryPoint files =
     (case find (\<lambda>entry. list_ex (\<lambda>f. toLowerCase (name f) = entry) files) entryPoints of
        Some entry \<Rightarrow> Inr entry
      | None \<Rightarrow>
          (case html_filter files of
             Inl e \<Rightarrow> Inl e
           | Inr htmlFiles \<Rightarrow>
               (case htmlFiles of
                  h # _ \<Rightarrow> Inr (name h)
                | [] \<Rightarrow> (case files of [] \<Rightarrow> Inl TypeError | f # _ \<Rightarrow> Inr (name f)))))"

section \<open>fixRelativePaths\<close>

subsection \<open>The four regular expressions\<close>

text \<open>
  The four expressions have one shape,
  \<^verbatim>\<open>/(<tag[^>]*attr=["'])(?!https?:\/\/...)([^"']*)(["'])/g\<close>,
  so one is written as a record: the literal the match starts with, the literal
  before the opening quote, and the strings the negative lookahead refuses.
  \<^verbatim>\<open>https?:\/\/\<close> stands for the two strings \<^verbatim>\<open>http://\<close> and \<^verbatim>\<open>https://\<close>.
  No expression has the \<^verbatim>\<open>i\<close> flag: every literal is compared case-sensitively.
\<close>

record pattern =
  tag :: string
  attr :: string
  excluded :: "string list"

definition link_href :: pattern where
  "link_href = \<lparr>tag = ''<link'', attr = ''href='', excluded = [''http://'', ''https://'']\<rparr>"

definition script_src :: pattern where
  "script_src = \<lparr>tag = ''<script'', attr = ''src='', excluded = [''http://'', ''https://'']\<rparr>"

definition img_src :: pattern where
  "img_src = \<lparr>tag = ''<img'', attr = ''src='', excluded = [''http://'', ''https://'']\<rparr>"

definition a_href :: pattern where
  "a_href = \<lparr>tag = ''<a'', attr = ''href='', excluded = [''http://'', ''https://'', ''#'']\<rparr>"

text \<open>The class \<^verbatim>\<open>["']\<close>.\<close>

definition is_quote :: "char \<Rightarrow> bool" where
  "is_quote c \<longleftrightarrow> c = CHR 0x22 \<or> c = CHR 0x27"

text \<open>
  \<^verbatim>\<open>([^"']*)(["'])\<close>: the greedy star takes every character up to the next quote.
  Giving characters back cannot help (the character after a shorter run is not a
  quote), so there is a match exactly when a quote follows the run. The result is the
  run, the quote and the text after it.
\<close>

fun value_then_quote :: "string \<Rightarrow> (string \<times> char \<times> string) option" where
  "value_then_quote [] = None"
| "value_then_quote (c # cs) =
     (if is_quote c then Some ([], c, cs)
      else (case value_then_quote cs of
              None \<Rightarrow> None
            | Some (v, q, rest) \<Rightarrow> Some (c # v, q, rest)))"

text \<open>
  \<^verbatim>\<open>attr=["'](?!...)([^"']*)(["'])\<close> at the start of \<open>s\<close>: the end of group 1
  (the attribute name with its opening quote), group 2, group 3 and the text after
  the match.
\<close>

definition attempt :: "pattern \<Rightarrow> string \<Rightarrow> (string \<times> string \<times> string \<times> string) option" where
  "attempt p s =
     (if startsWith s (attr p) then
        (case drop (length (attr p)) s of
           [] \<Rightarrow> None
         | q # r \<Rightarrow>
             if is_quote q \<and> \<not> list_ex (startsWith r) (excluded p) then
               (case value_then_quote r of
                  None \<Rightarrow> None
                | Some (v, q', rest) \<Rightarrow> Some (attr p @ [q], v, [q'], rest))
             else None)
      else None)"

text \<open>
  \<^verbatim>\<open>[^>]*\<close> followed by the rest of the expression. The star is greedy and the
  matcher backtracks: it first takes one more character that is not \<^verbatim>\<open>>\<close> and
  tries from there, and only when everything further right has failed does it try
  the rest of the expression at the present position. The first component of the
  result is what the star consumed.
\<close>

fun star_attempt :: "pattern \<Rightarrow> string \<Rightarrow> (string \<times> string \<times> string \<times> string \<times> string) option" where
  "star_attempt p [] =
     (case attempt p [] of
        None \<Rightarrow> None
      | Some (a, v, q, rest) \<Rightarrow> Some ([], a, v, q, rest))"
| "star_attempt p (c # cs) =
     (case (if c \<noteq> CHR ''>'' then star_attempt p cs else None) of
        Some (skipped, a, v, q, rest) \<Rightarrow> Some (c # skipped, a, v, q, rest)
      | None \<Rightarrow>
          (case attempt p (c # cs) of
             None \<Rightarrow> None
           | Some (a, v, q, rest) \<Rightarrow> Some ([], a, v, q, rest)))"

text \<open>
  A match of the whole expression at the start of \<open>s\<close>: the three groups and the
  text after the match.
\<close>

definition match_at :: "pattern \<Rightarrow> string \<Rightarrow> (string \<times> string \<times> string \<times> string) option" where
  "match_at p s =
     (if startsWith s (tag p) then
        (case star_attempt p (drop (length (tag p)) s) of
           None \<Rightarrow> None
         | Some (skipped, a, v, q, rest) \<Rightarrow> Some (tag p @ skipped @ a, v, q, rest))
      else None)"

subsection \<open>The replacement string\<close>

text \<open>
  The second argument of \<^verbatim>\<open>replace\<close> is the template literal
  \<^verbatim>\<open>`$1${basePath}$2$3`\<close>: \<open>basePath\<close> is spliced into the replacement string
  before \<^verbatim>\<open>replace\<close> reads it, so a dollar sign inside \<open>basePath\<close> is read as part
  of a replacement pattern. \<open>GetSubstitution\<close> is the expansion ECMAScript defines
  for a replacement string, for an expression without named groups:
  \<^verbatim>\<open>$$\<close> is a dollar sign, \<^verbatim>\<open>$&\<close> the match, \<^verbatim>\<open>$`\<close> the text before the match,
  \<^verbatim>\<open>$'\<close> the text after it, \<^verbatim>\<open>$n\<close> and \<^verbatim>\<open>$nn\<close> the group of that number when
  there is one; two digits that name no group are read as one digit and a literal
  digit; anything else stands for itself.
\<close>

definition is_digit :: "char \<Rightarrow> bool" where
  "is_digit c \<longleftrightarrow> c \<in> set ''0123456789''"

definition digit_value :: "char \<Rightarrow> nat" where
  "digit_value c = of_char c - 48"

fun GetSubstitution :: "string \<Rightarrow> string \<Rightarrow> string \<Rightarrow> string list \<Rightarrow> string \<Rightarrow> string" where
  "GetSubstitution matched preceding following captures [] = []"
| "GetSubstitution matched preceding following captures [c] = [c]"
| "GetSubstitution matched preceding following captures (c # d # t) =
     (if c \<noteq> CHR ''$'' then c # GetSubstitution matched preceding following captures (d # t)
      else if d = CHR ''$'' then CHR ''$'' # GetSubstitution matched preceding following captures t
      else if d = CHR ''&'' then matched @ GetSubstitution matched preceding following captures t
      else if d = CHR 0x60 then preceding @ GetSubstitution matched preceding following captures t
      else if d = CHR 0x27 then following @ GetSubstitution matched preceding following captures t
      else if is_digit d then
        (let one = digit_value d;
             one_digit =
               (if 1 \<le> one \<and> one \<le> length captures
                then captures ! (one - 1) @ GetSubstitution matched preceding following captures t
                else c # d # GetSubstitution matched preceding following captures t)
         in case t of
              [] \<Rightarrow> one_digit
            | e # t' \<Rightarrow>
                if is_digit e then
                  (let two = 10 * one + digit_value e
                   in if two > length captures then one_digit
                      else if 1 \<le> two
                      then captures ! (two - 1) @ GetSubstitution matched preceding following captures t'
                      else c # d # e # GetSubstitution matched preceding following captures t')
                else one_digit)
      else c # GetSubstitution matched preceding following captures (d # t))"

subsection \<open>replace with a global expression\<close>

text \<open>
  \<^verbatim>\<open>html.replace(/.../g, replacement)\<close>: the text is scanned from the left; where
  the expression matches, the expanded replacement is written and the scan goes on
  after the match; where it does not, the character is copied and the scan moves
  one character on. \<open>preceding\<close> is the text already passed (what \<^verbatim>\<open>$`\<close> stands
  for).
\<close>

function replace_from :: "pattern \<Rightarrow> string \<Rightarrow> string \<Rightarrow> string \<Rightarrow> string" where
  "replace_from p replacement preceding s =
     (case match_at p s of
        Some (g1, g2, g3, rest) \<Rightarrow>
          GetSubstitution (g1 @ g2 @ g3) preceding rest [g1, g2, g3] replacement
          @ replace_from p replacement (preceding @ g1 @ g2 @ g3) rest
      | None \<Rightarrow>
          (case s of
             [] \<Rightarrow> []
           | c # cs \<Rightarrow> c # replace_from p replacement (preceding @ [c]) cs))"
  by pat_completeness auto
termination
proof (relation "measure (\<lambda>(p, replacement, preceding, s). length s)")
  show "wf (measure (\<lambda>(p, replacement, preceding, s). length s))"
    by simp
next
  fix p :: pattern and replacement preceding s :: string
    and x2 :: "string \<times> string \<times> string \<times> string"
    and g1 x2a g2 x2b g3 rest
  assume m: "match_at p s = Some x2" and x: "(g1, x2a) = x2" "(g2, x2b) = x2a" "(g3, rest) = x2b"
  have v: "length r' < length r" if "value_then_quote r = Some (w, q, r')" for r w q r'
    using that
    by (induction r arbitrary: w) (auto split: if_splits option.splits)
  have a: "length r' < length r" if "attempt p r = Some (b, w, q, r')" for r b w q r'
  proof -
    from that obtain c t where d: "drop (length (attr p)) r = c # t" and t: "value_then_quote t = Some (w, hd q, r')"
      by (auto simp: attempt_def split: if_splits list.splits option.splits)
    have "length r' < length t" using v [OF t] .
    also have "length t < length (drop (length (attr p)) r)" by (simp add: d)
    also have "\<dots> \<le> length r" by simp
    finally show ?thesis .
  qed
  have st: "length r' < length r" if "star_attempt p r = Some (k, b, w, q, r')" for r k b w q r'
    using that
  proof (induction r arbitrary: k)
    case Nil
    then show ?case using a [of "[]"] by (auto split: option.splits)
  next
    case (Cons c cs)
    then show ?case using a [of "c # cs"]
      by (fastforce split: option.splits if_splits)
  qed
  from m x obtain k b where "star_attempt p (drop (length (tag p)) s) = Some (k, b, g2, g3, rest)"
    by (auto simp: match_at_def split: if_splits option.splits)
  from st [OF this] have "length rest < length s" by simp
  then show "((p, replacement, preceding @ g1 @ g2 @ g3, rest), (p, replacement, preceding, s))
             \<in> measure (\<lambda>(p, replacement, preceding, s). length s)"
    by simp
next
  fix p :: pattern and replacement preceding s :: string and c cs
  assume "match_at p s = None" "s = c # cs"
  then show "((p, replacement, preceding @ [c], cs), (p, replacement, preceding, s))
             \<in> measure (\<lambda>(p, replacement, preceding, s). length s)"
    by simp
qed

text \<open>The equation of \<open>replace_from\<close> is unfolded by hand, one step at a time.\<close>

declare replace_from.simps [simp del]

definition replace :: "string \<Rightarrow> pattern \<Rightarrow> string \<Rightarrow> string" where
  "replace html p replacement = replace_from p replacement [] html"

subsection \<open>The four passes\<close>

definition fixRelativePaths :: "string \<Rightarrow> string \<Rightarrow> string" where
  "fixRelativePaths html basePath =
     (let html = replace html link_href (''$1'' @ basePath @ ''$2$3'');
          html = replace html script_src (''$1'' @ basePath @ ''$2$3'');
          html = replace html img_src (''$1'' @ basePath @ ''$2$3'');
          html = replace html a_href (''$1'' @ basePath @ ''$2$3'')
      in html)"

section \<open>The bucket\<close>

text \<open>
  An R2 object as the worker sees it: the stored bytes and the HTTP metadata given
  when it was written. Of the metadata only the two fields are kept whose headers
  the worker sets itself. The content type is kept as the value passed to
  \<^verbatim>\<open>put\<close>, which is whatever \<^verbatim>\<open>getMimeType\<close> returned.
\<close>

record httpMetadata =
  contentType :: "mime option"
  cacheControl :: "string option"

record r2object =
  body :: string
  httpMetadata :: httpMetadata

text \<open>
  \<^verbatim>\<open>object.text()\<close>, for a body of ASCII characters, where the text is the bytes.
  The decoding of multi-byte and of invalid UTF-8 sequences is outside the model.
\<close>

definition text_of :: "r2object \<Rightarrow> string" where
  "text_of object = body object"

text \<open>
  The bucket is a map from keys to objects. \<^verbatim>\<open>put\<close> replaces what the key held;
  \<^verbatim>\<open>get\<close> answers \<^verbatim>\<open>null\<close> (\<open>None\<close>) for a key that holds nothing. Both are
  awaited calls that can reject, so the worker's functions take them as arguments of
  a type with an error; \<open>bucket_put\<close> and \<open>bucket_get\<close> are the ones of a bucket
  that does not fail.
\<close>

type_synonym bucket = "string \<rightharpoonup> r2object"

definition bucket_put :: "bucket \<Rightarrow> string \<Rightarrow> string \<Rightarrow> httpMetadata \<Rightarrow> error + bucket" where
  "bucket_put b key content md = Inr (b(key \<mapsto> \<lparr>body = content, httpMetadata = md\<rparr>))"

definition bucket_get :: "bucket \<Rightarrow> string \<Rightarrow> error + r2object option" where
  "bucket_get b key = Inr (b key)"

text \<open>\<^verbatim>\<open>put(key, value)\<close> without options stores no metadata.\<close>

definition no_metadata :: httpMetadata where
  "no_metadata = \<lparr>contentType = None, cacheControl = None\<rparr>"

section \<open>extractZip\<close>

text \<open>
  \<^verbatim>\<open>JSZip.loadAsync\<close> is a library call: its outcome is an argument, either the
  error it rejected with or \<^verbatim>\<open>Object.entries(zip.files)\<close>, the member names with
  their entries in the order the loop visits them. An entry has its \<^verbatim>\<open>dir\<close> flag
  and the outcome of \<^verbatim>\<open>async('uint8array')\<close>. The names are the keys of one object.
\<close>

record zipEntry =
  dir :: bool
  async_uint8array :: "error + string"

text \<open>
  The loop of \<^verbatim>\<open>extractZip\<close>, with the array \<^verbatim>\<open>files\<close> and the bucket passed
  along. A rejected call leaves the loop; what was written before stays written.
\<close>

fun extract_loop ::
  "('b \<Rightarrow> string \<Rightarrow> string \<Rightarrow> httpMetadata \<Rightarrow> error + 'b) \<Rightarrow> string \<Rightarrow>
   (string \<times> zipEntry) list \<Rightarrow> FileEntry list \<Rightarrow> 'b \<Rightarrow> 'b \<times> (error + FileEntry list)" where
  "extract_loop put siteId [] files b = (b, Inr files)"
| "extract_loop put siteId ((filename, zipEntry) # entries) files b =
     (if \<not> dir zipEntry then
        (case async_uint8array zipEntry of
           Inl e \<Rightarrow> (b, Inl e)
         | Inr fileContent \<Rightarrow>
             (let fileType = getMimeType filename;
                  r2Key = ''sites/'' @ siteId @ ''/'' @ filename
              in case put b r2Key fileContent \<lparr>contentType = Some fileType, cacheControl = None\<rparr> of
                   Inl e \<Rightarrow> (b, Inl e)
                 | Inr b' \<Rightarrow>
                     extract_loop put siteId entries
                       (files @ [\<lparr>name = filename, type = fileType,
                                  size_bytes = length fileContent, path = r2Key\<rparr>]) b'))
      else extract_loop put siteId entries files b)"

definition extractZip ::
  "('b \<Rightarrow> string \<Rightarrow> string \<Rightarrow> httpMetadata \<Rightarrow> error + 'b) \<Rightarrow>
   error + (string \<times> zipEntry) list \<Rightarrow> string \<Rightarrow> 'b \<Rightarrow> 'b \<times> (error + FileEntry list)" where
  "extractZip put archive siteId b =
     (case archive of
        Inl e \<Rightarrow> (b, Inl e)
      | Inr entries \<Rightarrow> extract_loop put siteId entries [] b)"

section \<open>handleZipUpload\<close>

record siteConfig =
  site_id :: string
  site_name :: string
  site_files :: "FileEntry list"
  entryPoint :: string
  createdAt :: string
  url :: string
  directUrl :: string

text \<open>
  \<^verbatim>\<open>generateSiteId\<close> draws eight characters from \<^verbatim>\<open>chars\<close>; which ones is chance,
  so the identifier is an argument and \<open>generated_site_id\<close> says what can be drawn.
\<close>

definition chars :: string where
  "chars = ''abcdefghijklmnopqrstuvwxyz0123456789''"

definition generated_site_id :: "string \<Rightarrow> bool" where
  "generated_site_id s \<longleftrightarrow> length s = 8 \<and> list_all (\<lambda>c. c \<in> set chars) s"

text \<open>
  \<^verbatim>\<open>handleZipUpload\<close> from the point where the form has been accepted: extraction,
  entry point, the site configuration, and its write to
  \<^verbatim>\<open>sites/${siteId}/config.json\<close> without metadata. The origin of the request URL,
  the clock's \<^verbatim>\<open>toISOString()\<close>, the site name of the form, the identifier and
  \<^verbatim>\<open>JSON.stringify\<close> are arguments. An error is what the \<^verbatim>\<open>catch\<close> receives (it
  answers with status 500); on success the result is the configuration the answer
  carries.
\<close>

definition handleZipUpload ::
  "('b \<Rightarrow> string \<Rightarrow> string \<Rightarrow> httpMetadata \<Rightarrow> error + 'b) \<Rightarrow> (siteConfig \<Rightarrow> string) \<Rightarrow>
   string \<Rightarrow> string \<Rightarrow> string \<Rightarrow> string \<Rightarrow> error + (string \<times> zipEntry) list \<Rightarrow> 'b \<Rightarrow>
   'b \<times> (error + siteConfig)" where
  "handleZipUpload put stringify origin now siteName siteId archive b =
     (case extractZip put archive siteId b of
        (b1, Inl e) \<Rightarrow> (b1, Inl e)
      | (b1, Inr extractedFiles) \<Rightarrow>
          (case findEntryPoint extractedFiles of
             Inl e \<Rightarrow> (b1, Inl e)
           | Inr entry \<Rightarrow>
               (let siteConfig =
                      \<lparr>site_id = siteId, site_name = siteName, site_files = extractedFiles,
                       entryPoint = entry, createdAt = now,
                       url = origin @ ''/s/'' @ siteId,
                       directUrl = origin @ ''/s/'' @ siteId @ ''/'' @ entry\<rparr>
                in case put b1 (''sites/'' @ siteId @ ''/config.json'') (stringify siteConfig)
                          no_metadata of
                     Inl e \<Rightarrow> (b1, Inl e)
                   | Inr b2 \<Rightarrow> (b2, Inr siteConfig))))"

section \<open>serveHostedSite\<close>

text \<open>
  The response: its status, the two headers the worker sets, and the body. A header
  is \<open>None\<close> when the worker passes none.
\<close>

record headers =
  Content_Type :: "mime option"
  Cache_Control :: "string option"

record response =
  status :: nat
  headers :: headers
  content :: string

text \<open>
  \<^verbatim>\<open>object.writeHttpMetadata(headers)\<close> sets, for each field the stored metadata has,
  the header of that field, over what the header held.
\<close>

definition writeHttpMetadata :: "r2object \<Rightarrow> headers \<Rightarrow> headers" where
  "writeHttpMetadata object h =
     (let h = (case contentType (httpMetadata object) of
                 None \<Rightarrow> h | Some t \<Rightarrow> h\<lparr>Content_Type := Some t\<rparr>)
      in case cacheControl (httpMetadata object) of
           None \<Rightarrow> h | Some c \<Rightarrow> h\<lparr>Cache_Control := Some c\<rparr>)"

text \<open>
  \<^verbatim>\<open>pathname.split('/').filter(p => p)\<close> drops the empty pieces. \<^verbatim>\<open>pathParts[1]\<close>
  is \<^verbatim>\<open>undefined\<close> when there is no second piece, and the template literals then
  print it as the word \<^verbatim>\<open>undefined\<close>. An empty join is falsy, so \<^verbatim>\<open>||\<close> gives
  \<^verbatim>\<open>index.html\<close>.
\<close>

definition pathParts :: "string \<Rightarrow> string list" where
  "pathParts pathname = filter (\<lambda>p. p \<noteq> []) (split (CHR ''/'') pathname)"

definition siteId_of :: "string \<Rightarrow> string" where
  "siteId_of pathname =
     (case drop 1 (pathParts pathname) of [] \<Rightarrow> ''undefined'' | p # _ \<Rightarrow> p)"

definition requestedFile_of :: "string \<Rightarrow> string" where
  "requestedFile_of pathname =
     (let joined = join ''/'' (drop 2 (pathParts pathname))
      in if joined = [] then ''index.html'' else joined)"

definition not_found :: response where
  "not_found = \<lparr>status = 404, headers = \<lparr>Content_Type = None, Cache_Control = None\<rparr>,
                content = ''File not found''\<rparr>"

definition serve_error :: response where
  "serve_error = \<lparr>status = 500, headers = \<lparr>Content_Type = None, Cache_Control = None\<rparr>,
                  content = ''Error serving site''\<rparr>"

text \<open>
  \<open>get\<close> is \<^verbatim>\<open>env.WEBSITES_BUCKET.get\<close>. Whatever is raised inside the \<^verbatim>\<open>try\<close>
  ends in the \<^verbatim>\<open>catch\<close>: a rejected read, and \<^verbatim>\<open>contentType.includes\<close> on a
  content type that is not a string.
\<close>

definition serveHostedSite :: "(string \<Rightarrow> error + r2object option) \<Rightarrow> string \<Rightarrow> response" where
  "serveHostedSite get pathname =
     (let siteId = siteId_of pathname;
          requestedFile = requestedFile_of pathname;
          fileKey = ''sites/'' @ siteId @ ''/'' @ requestedFile
      in case get fileKey of
           Inl e \<Rightarrow> serve_error
         | Inr (Some object) \<Rightarrow>
             (let contentType = getMimeType requestedFile;
                  h = \<lparr>Content_Type = Some contentType,
                       Cache_Control = Some ''public, max-age=3600''\<rparr>
              in case mime_includes contentType ''html'' of
                   Inl e \<Rightarrow> serve_error
                 | Inr True \<Rightarrow>
                     \<lparr>status = 200, headers = h,
                      content = fixRelativePaths (text_of object) (''/s/'' @ siteId @ ''/'')\<rparr>
                 | Inr False \<Rightarrow>
                     \<lparr>status = 200, headers = writeHttpMetadata object h, content = body object\<rparr>)
         | Inr None \<Rightarrow>
             (if requestedFile \<noteq> ''index.html'' then
                (case get (''sites/'' @ siteId @ ''/index.html'') of
                   Inl e \<Rightarrow> serve_error
                 | Inr (Some indexObject) \<Rightarrow>
                     \<lparr>status = 200,
                      headers = \<lparr>Content_Type = Some (Mime ''text/html''), Cache_Control = None\<rparr>,
                      content = fixRelativePaths (text_of indexObject) (''/s/'' @ siteId @ ''/'')\<rparr>
                 | Inr None \<Rightarrow> not_found)
              else not_found))"

section \<open>A second description of the rewriting\<close>

text \<open>
  The rewriting described as matching of text, to compare \<open>fixRelativePaths\<close> with. It says
  where a pattern occurs in a text and what a pass over the text gives, without
  saying how to search. A pattern is a tag text, an attribute text and the beginnings
  a value must not have. It occurs at the start of a text when the text reads: the
  tag text, characters other than \<^verbatim>\<open>>\<close>, the attribute text, a quote character, a
  value without quote characters that has none of the refused beginnings, a quote
  character, and the rest.
\<close>

definition spec_quote :: "char \<Rightarrow> bool" where
  "spec_quote c \<longleftrightarrow> c = CHR 0x22 \<or> c = CHR 0x27"

definition spec_occurrence ::
  "string \<Rightarrow> string \<Rightarrow> string list \<Rightarrow> string \<Rightarrow> string \<Rightarrow> char \<Rightarrow> string \<Rightarrow> char \<Rightarrow> string \<Rightarrow> bool" where
  "spec_occurrence tagText attrText refused s between q v q' rest \<longleftrightarrow>
     s = tagText @ between @ attrText @ [q] @ v @ [q'] @ rest
     \<and> CHR ''>'' \<notin> set between
     \<and> spec_quote q \<and> spec_quote q'
     \<and> (\<forall>c \<in> set v. \<not> spec_quote c)
     \<and> (\<forall>e \<in> set refused. \<not> prefix e v)"

text \<open>
  One pass, from left to right. Where the pattern does not occur the character is
  kept. Where it occurs, the occurrence with the longest run before the attribute
  text counts (the last attribute text of the tag that qualifies); the base path is
  put in front of its value and the pass goes on after its closing quote.
\<close>

inductive spec_pass :: "string \<Rightarrow> string \<Rightarrow> string list \<Rightarrow> string \<Rightarrow> string \<Rightarrow> string \<Rightarrow> bool"
  for tagText attrText refused basePath where
  Finished: "spec_pass tagText attrText refused basePath [] []"
| Keep:
    "\<forall>between q v q' rest. \<not> spec_occurrence tagText attrText refused (c # cs) between q v q' rest \<Longrightarrow>
     spec_pass tagText attrText refused basePath cs out \<Longrightarrow>
     spec_pass tagText attrText refused basePath (c # cs) (c # out)"
| Insert:
    "spec_occurrence tagText attrText refused s between q v q' rest \<Longrightarrow>
     \<forall>between2 q2 v2 q2' rest2.
        spec_occurrence tagText attrText refused s between2 q2 v2 q2' rest2 \<longrightarrow>
        length between2 \<le> length between \<Longrightarrow>
     spec_pass tagText attrText refused basePath rest out \<Longrightarrow>
     spec_pass tagText attrText refused basePath s
       (tagText @ between @ attrText @ [q] @ basePath @ v @ [q'] @ out)"

text \<open>The four passes, each on the result of the one before.\<close>

definition spec_rewrite :: "string \<Rightarrow> string \<Rightarrow> string \<Rightarrow> bool" where
  "spec_rewrite html basePath out \<longleftrightarrow>
     (\<exists>h1 h2 h3.
        spec_pass ''<link'' ''href='' [''http://'', ''https://''] basePath html h1
        \<and> spec_pass ''<script'' ''src='' [''http://'', ''https://''] basePath h1 h2
        \<and> spec_pass ''<img'' ''src='' [''http://'', ''https://''] basePath h2 h3
        \<and> spec_pass ''<a'' ''href='' [''http://'', ''https://'', ''#''] basePath h3 out)"

section \<open>An example site\<close>

text \<open>An archive with a directory, a stylesheet in it, a file named like the manifest, and a page.\<close>

definition site_archive :: "(string \<times> zipEntry) list" where
  \<open>site_archive =
     [(''css/'', \<lparr>dir = True, async_uint8array = Inr []\<rparr>),
      (''css/style.css'', \<lparr>dir = False, async_uint8array = Inr ''body{}''\<rparr>),
      (''config.json'', \<lparr>dir = False, async_uint8array = Inr ''{}''\<rparr>),
      (''index.html'', \<lparr>dir = False, async_uint8array = Inr ''<a href="x">x</a>''\<rparr>)]\<close>

section \<open>Entry point resolution\<close>

text \<open>
  Where every type is a string and no name lower-cases to an entry point name, the
  result is the name of the first entry whose type contains \<^verbatim>\<open>html\<close> or whose name
  ends in \<^verbatim>\<open>.html\<close>, and the name of the first entry when there is none.
\<close>

lemma html_filter_strings:
  "\<forall>f \<in> set files. type f \<noteq> Inherited \<Longrightarrow>
   html_filter files =
     Inr (filter (\<lambda>f. (case type f of Mime t \<Rightarrow> includes_str t ''html'' | Inherited \<Rightarrow> False)
                         \<or> endsWith (name f) ''.html'') files)"
proof (induction files)
  case Nil
  then show ?case by simp
next
  case (Cons f fs)
  then obtain t where "type f = Mime t" by (cases "type f") auto
  with Cons show ?case by simp
qed

lemma findEntryPoint_string_types:
  assumes "files \<noteq> []"
    and "\<forall>f \<in> set files. type f \<noteq> Inherited"
    and "\<not> list_ex (\<lambda>f. toLowerCase (name f) \<in> set entryPoints) files"
  shows "findEntryPoint files =
           Inr (case filter (\<lambda>f. (case type f of Mime t \<Rightarrow> includes_str t ''html''
                                                | Inherited \<Rightarrow> False)
                                  \<or> endsWith (name f) ''.html'') files of
                  h # _ \<Rightarrow> name h
                | [] \<Rightarrow> name (hd files))"
proof -
  from assms(3)
  have "find (\<lambda>entry. list_ex (\<lambda>f. toLowerCase (name f) = entry) files) entryPoints = None"
    by (auto simp: find_None_iff list_ex_iff)
  with assms(1) html_filter_strings [OF assms(2)] show ?thesis
    by (cases files) (auto simp: findEntryPoint_def split: list.splits)
qed

text \<open>
  C6. The claim: on an empty sequence \<^verbatim>\<open>findEntryPoint\<close> fails with the
  distinguished error \<open>EmptySiteError\<close>. It fails, but not with that error.
\<close>

theorem findEntryPoint_empty_not_EmptySiteError:
  "findEntryPoint [] \<noteq> Inl EmptySiteError"
  by (simp add: findEntryPoint_def entryPoints_def)

text \<open>
  C6, as amended. On an empty sequence \<^verbatim>\<open>findEntryPoint\<close> fails with the
  \<open>TypeError\<close> the language raises for \<^verbatim>\<open>files[0].name\<close>.
\<close>

theorem findEntryPoint_empty_TypeError:
  "findEntryPoint [] = Inl TypeError"
  by (simp add: findEntryPoint_def entryPoints_def)

section \<open>Serving\<close>

lemma split_no_sep: "c \<notin> set s \<Longrightarrow> split c s = [s]"
  by (induction s) auto

lemma split_append_sep: "c \<notin> set s \<Longrightarrow> split c (s @ c # t) = s # split c t"
  by (induction s) auto

lemma pathParts_site_file:
  assumes "sid \<noteq> []" "CHR ''/'' \<notin> set sid" "fl \<noteq> []" "CHR ''/'' \<notin> set fl"
  shows "pathParts (''/s/'' @ sid @ ''/'' @ fl) = [''s'', sid, fl]"
proof -
  have "split (CHR ''/'') (sid @ CHR ''/'' # fl) = [sid, fl]"
    using split_append_sep [OF assms(2), of fl] assms(4) by (simp add: split_no_sep)
  then have "split (CHR ''/'') (''/s/'' @ sid @ ''/'' @ fl) = [[], ''s'', sid, fl]"
    by simp
  then show ?thesis
    using assms by (simp add: pathParts_def)
qed

lemma split_segments:
  "c \<notin> set s \<Longrightarrow> \<forall>x \<in> set segs. c \<notin> set x \<Longrightarrow>
   split c (s @ concat (map (\<lambda>x. c # x) segs)) = s # segs"
proof (induction segs arbitrary: s)
  case Nil
  then show ?case by (simp add: split_no_sep)
next
  case (Cons x segs)
  from Cons.prems have "split c (x @ concat (map (\<lambda>x. c # x) segs)) = x # segs"
    by (intro Cons.IH) auto
  with split_append_sep [OF Cons.prems(1), of "x @ concat (map (\<lambda>x. c # x) segs)"]
  show ?case by simp
qed

lemma split_segments_slash:
  "c \<notin> set s \<Longrightarrow> \<forall>x \<in> set segs. c \<notin> set x \<Longrightarrow>
   split c (s @ concat (map (\<lambda>x. c # x) segs) @ [c]) = s # segs @ [[]]"
proof (induction segs arbitrary: s)
  case Nil
  with split_append_sep [of c s "[]"] show ?case by simp
next
  case (Cons x segs)
  from Cons.prems have "split c (x @ concat (map (\<lambda>x. c # x) segs) @ [c]) = x # segs @ [[]]"
    by (intro Cons.IH) auto
  with split_append_sep [OF Cons.prems(1), of "x @ concat (map (\<lambda>x. c # x) segs) @ [c]"]
  show ?case by simp
qed

lemma pathParts_segments:
  assumes "sid \<noteq> []" "CHR ''/'' \<notin> set sid"
    and "\<forall>x \<in> set segs. x \<noteq> [] \<and> CHR ''/'' \<notin> set x"
  shows "pathParts (''/s/'' @ sid @ concat (map (\<lambda>x. CHR ''/'' # x) segs)
                    @ (if trailing then ''/'' else [])) = ''s'' # sid # segs"
proof -
  let ?c = "CHR ''/''"
  from assms have f: "\<forall>x \<in> set (sid # segs). ?c \<notin> set x" by auto
  have e: "''/s/'' @ sid @ concat (map (\<lambda>x. ?c # x) segs) @ t =
           ?c # ''s'' @ concat (map (\<lambda>x. ?c # x) (sid # segs)) @ t" for t
    by simp
  have "split ?c (''s'' @ concat (map (\<lambda>x. ?c # x) (sid # segs)) @ (if trailing then ''/'' else []))
        = ''s'' # (sid # segs) @ (if trailing then [[]] else [])"
    using split_segments [of ?c "''s''" "sid # segs"] split_segments_slash [of ?c "''s''" "sid # segs"] f
    by (cases trailing) simp_all
  then have "split ?c (''/s/'' @ sid @ concat (map (\<lambda>x. ?c # x) segs) @ (if trailing then ''/'' else []))
        = [] # ''s'' # (sid # segs) @ (if trailing then [[]] else [])"
    unfolding e by simp
  moreover from assms have "filter (\<lambda>p. p \<noteq> []) segs = segs"
    by (simp add: filter_id_conv)
  ultimately show ?thesis using assms(1)
    by (simp add: pathParts_def)
qed

lemma join_segments:
  "join ''/'' segs = drop 1 (concat (map (\<lambda>x. CHR ''/'' # x) segs))"
  by (induction "''/''" segs rule: join.induct) simp_all

text \<open>
  C2. The request is for \<^verbatim>\<open>/s/<siteId>/<requestedPath>\<close>, the path given by its
  segments, with or without a slash at the end; an empty requested path is served as
  \<^verbatim>\<open>index.html\<close>. When the read at \<^verbatim>\<open>sites/<siteId>/<requestedPath>\<close> finds nothing
  and the requested path is not \<^verbatim>\<open>index.html\<close>, the worker reads
  \<^verbatim>\<open>sites/<siteId>/index.html\<close> and, when that is there, answers with its rewritten
  text as \<^verbatim>\<open>text/html\<close>. The answer is the 404 answer exactly when the first read
  finds nothing and either the request was for \<^verbatim>\<open>index.html\<close> or the second read
  finds nothing as well, and no other answer has status 404.
\<close>

theorem serveHostedSite_fallback_and_not_found:
  assumes "siteId \<noteq> []" and "CHR ''/'' \<notin> set siteId"
    and "\<forall>x \<in> set segments. x \<noteq> [] \<and> CHR ''/'' \<notin> set x"
    and "pathname = ''/s/'' @ siteId @ concat (map (\<lambda>x. CHR ''/'' # x) segments)
                   @ (if trailing then ''/'' else [])"
    and "requestedPath = drop 1 (concat (map (\<lambda>x. CHR ''/'' # x) segments))"
    and "served = (if requestedPath = [] then ''index.html'' else requestedPath)"
  shows "(get (''sites/'' @ siteId @ ''/'' @ served) = Inr None
            \<and> served \<noteq> ''index.html''
            \<and> get (''sites/'' @ siteId @ ''/index.html'') = Inr (Some indexObject) \<longrightarrow>
          serveHostedSite get pathname =
            \<lparr>status = 200,
             headers = \<lparr>Content_Type = Some (Mime ''text/html''), Cache_Control = None\<rparr>,
             content = fixRelativePaths (text_of indexObject) (''/s/'' @ siteId @ ''/'')\<rparr>)
         \<and> (serveHostedSite get pathname = not_found \<longleftrightarrow>
              get (''sites/'' @ siteId @ ''/'' @ served) = Inr None
              \<and> (served = ''index.html''
                   \<or> get (''sites/'' @ siteId @ ''/index.html'') = Inr None))
         \<and> (status (serveHostedSite get pathname) = 404 \<longleftrightarrow>
              serveHostedSite get pathname = not_found)
         \<and> (requestedPath = [] \<longrightarrow>
              serveHostedSite get pathname = serveHostedSite get (''/s/'' @ siteId @ ''/index.html''))"
proof -
  from pathParts_segments [OF assms(1-3), of trailing] assms(4)
  have p: "pathParts pathname = ''s'' # siteId # segments" by simp
  have sid: "siteId_of pathname = siteId"
    by (simp add: siteId_of_def p)
  have rf: "requestedFile_of pathname = served"
    by (simp add: requestedFile_of_def p join_segments assms(5,6) Let_def)
  have "pathParts (''/s/'' @ siteId @ concat (map (\<lambda>x. CHR ''/'' # x) [''index.html''])
                    @ (if False then ''/'' else [])) = ''s'' # siteId # [''index.html'']"
    by (rule pathParts_segments [OF assms(1,2)]) simp
  then have pi: "pathParts (''/s/'' @ siteId @ ''/index.html'') = [''s'', siteId, ''index.html'']"
    by simp
  have i: "siteId_of (''/s/'' @ siteId @ ''/index.html'') = siteId"
    "requestedFile_of (''/s/'' @ siteId @ ''/index.html'') = ''index.html''"
    unfolding siteId_of_def requestedFile_of_def pi by simp_all
  have 1: "get (''sites/'' @ siteId @ ''/'' @ served) = Inr None
            \<and> served \<noteq> ''index.html''
            \<and> get (''sites/'' @ siteId @ ''/index.html'') = Inr (Some indexObject) \<longrightarrow>
          serveHostedSite get pathname =
            \<lparr>status = 200,
             headers = \<lparr>Content_Type = Some (Mime ''text/html''), Cache_Control = None\<rparr>,
             content = fixRelativePaths (text_of indexObject) (''/s/'' @ siteId @ ''/'')\<rparr>"
    unfolding serveHostedSite_def sid rf by (simp add: Let_def)
  have 2: "serveHostedSite get pathname = not_found \<longleftrightarrow>
              get (''sites/'' @ siteId @ ''/'' @ served) = Inr None
              \<and> (served = ''index.html''
                   \<or> get (''sites/'' @ siteId @ ''/index.html'') = Inr None)"
    unfolding serveHostedSite_def sid rf
    by (auto simp: Let_def not_found_def serve_error_def
             split: sum.splits option.splits bool.splits)
  have 3: "status (serveHostedSite get pathname) = 404 \<longleftrightarrow>
              serveHostedSite get pathname = not_found"
    unfolding serveHostedSite_def sid rf
    by (auto simp: Let_def not_found_def serve_error_def
             split: sum.splits option.splits bool.splits)
  have 4: "requestedPath = [] \<longrightarrow>
              serveHostedSite get pathname = serveHostedSite get (''/s/'' @ siteId @ ''/index.html'')"
  proof
    assume "requestedPath = []"
    with assms(6) have "served = ''index.html''" by simp
    then show "serveHostedSite get pathname = serveHostedSite get (''/s/'' @ siteId @ ''/index.html'')"
      unfolding serveHostedSite_def sid rf i by simp
  qed
  from 1 2 3 4 show ?thesis by blast
qed

theorem serveHostedSite_fallback_and_not_found_witness:
  \<open>(let index = \<lparr>body = ''<a href="x.html">x</a>'',
                   httpMetadata = \<lparr>contentType = Some (Mime ''text/html''), cacheControl = None\<rparr>\<rparr>;
        get = bucket_get [''sites/abcd1234/index.html'' \<mapsto> index]
    in serveHostedSite get ''/s/abcd1234/about'' =
         \<lparr>status = 200,
          headers = \<lparr>Content_Type = Some (Mime ''text/html''), Cache_Control = None\<rparr>,
          content = ''<a href="/s/abcd1234/x.html">x</a>''\<rparr>
       \<and> serveHostedSite get ''/s/zzzz9999/about'' = not_found
       \<and> serveHostedSite get ''/s/abcd1234/'' = serveHostedSite get ''/s/abcd1234/index.html''
       \<and> serveHostedSite get ''/s/abcd1234/'' \<noteq> not_found)
   \<and> (let readme = \<lparr>body = ''read me'',
                     httpMetadata = \<lparr>contentType = Some (Mime ''text/plain''), cacheControl = None\<rparr>\<rparr>;
          get = bucket_get [''sites/abcd1234/docs/readme.txt'' \<mapsto> readme]
      in status (serveHostedSite get ''/s/abcd1234/docs/readme.txt'') \<noteq> 404
         \<and> status (serveHostedSite get ''/s/abcd1234/docs'') = 404
         \<and> status (serveHostedSite get ''/s/abcd1234'') = 404)\<close>
proof -
  let ?i = \<open>\<lparr>body = ''<a href="x.html">x</a>'',
                   httpMetadata = \<lparr>contentType = Some (Mime ''text/html''), cacheControl = None\<rparr>\<rparr>\<close>
  let ?r = \<open>\<lparr>body = ''read me'',
                     httpMetadata = \<lparr>contentType = Some (Mime ''text/plain''), cacheControl = None\<rparr>\<rparr>\<close>
  let ?gi = "bucket_get [''sites/abcd1234/index.html'' \<mapsto> ?i]"
  let ?gr = "bucket_get [''sites/abcd1234/docs/readme.txt'' \<mapsto> ?r]"
  have a: "''abcd1234'' \<noteq> []" "CHR ''/'' \<notin> set ''abcd1234''"
    and z: "''zzzz9999'' \<noteq> []" "CHR ''/'' \<notin> set ''zzzz9999''" by simp_all
  have s0: "\<forall>x \<in> set ([] :: string list). x \<noteq> [] \<and> CHR ''/'' \<notin> set x"
    and s1: "\<forall>x \<in> set [''about'']. x \<noteq> [] \<and> CHR ''/'' \<notin> set x"
    and s2: "\<forall>x \<in> set [''docs'', ''readme.txt'']. x \<noteq> [] \<and> CHR ''/'' \<notin> set x"
    and s3: "\<forall>x \<in> set [''docs'']. x \<noteq> [] \<and> CHR ''/'' \<notin> set x"
    by simp_all
  have fx: \<open>fixRelativePaths (text_of ?i) (''/s/'' @ ''abcd1234'' @ ''/'') = ''<a href="/s/abcd1234/x.html">x</a>''\<close>
    by code_simp
  note about = serveHostedSite_fallback_and_not_found
    [where trailing = False, OF a s1 refl refl refl]
  note other = serveHostedSite_fallback_and_not_found
    [where trailing = False, OF z s1 refl refl refl]
  note root = serveHostedSite_fallback_and_not_found
    [where trailing = True, OF a s0 refl refl refl]
  note bare = serveHostedSite_fallback_and_not_found
    [where trailing = False, OF a s0 refl refl refl]
  note readme = serveHostedSite_fallback_and_not_found
    [where trailing = False, OF a s2 refl refl refl]
  note docs = serveHostedSite_fallback_and_not_found
    [where trailing = False, OF a s3 refl refl refl]
  have 1: \<open>serveHostedSite ?gi ''/s/abcd1234/about'' =
         \<lparr>status = 200,
          headers = \<lparr>Content_Type = Some (Mime ''text/html''), Cache_Control = None\<rparr>,
          content = ''<a href="/s/abcd1234/x.html">x</a>''\<rparr>\<close>
    using about [where get = ?gi and indexObject = ?i, THEN conjunct1] fx
    by (simp add: bucket_get_def)
  have 2: "serveHostedSite ?gi ''/s/zzzz9999/about'' = not_found"
    using other [where get = ?gi, THEN conjunct2, THEN conjunct1] by (simp add: bucket_get_def)
  have 3: "serveHostedSite ?gi ''/s/abcd1234/'' = serveHostedSite ?gi ''/s/abcd1234/index.html''"
    using root [where get = ?gi, THEN conjunct2, THEN conjunct2, THEN conjunct2] by simp
  have 4: "serveHostedSite ?gi ''/s/abcd1234/'' \<noteq> not_found"
    using root [where get = ?gi, THEN conjunct2, THEN conjunct1] by (simp add: bucket_get_def)
  have 5: "status (serveHostedSite ?gr ''/s/abcd1234/docs/readme.txt'') \<noteq> 404"
    using readme [where get = ?gr, THEN conjunct2] by (simp add: bucket_get_def not_found_def)
  have 6: "status (serveHostedSite ?gr ''/s/abcd1234/docs'') = 404"
    using docs [where get = ?gr, THEN conjunct2] by (simp add: bucket_get_def not_found_def)
  have 7: "status (serveHostedSite ?gr ''/s/abcd1234'') = 404"
    using bare [where get = ?gr, THEN conjunct2] by (simp add: bucket_get_def not_found_def)
  from 1 2 3 4 5 6 7 show ?thesis unfolding Let_def by blast
qed

text \<open>
  C7. The claim: on a hit the served content type is the one \<^verbatim>\<open>getMimeType\<close> gives for
  the requested path and not the stored one. For a file that is not HTML the worker
  calls \<^verbatim>\<open>writeHttpMetadata\<close> after setting the header, so a stored content type
  wins: an object stored as \<^verbatim>\<open>text/plain\<close> under a \<^verbatim>\<open>.png\<close> key is served as
  \<^verbatim>\<open>text/plain\<close>.
\<close>

theorem serveHostedSite_content_type_from_metadata:
  \<open>Content_Type (headers (serveHostedSite
      (bucket_get [''sites/abcd1234/a.png'' \<mapsto>
         \<lparr>body = ''PNG'', httpMetadata = \<lparr>contentType = Some (Mime ''text/plain''), cacheControl = None\<rparr>\<rparr>])
      ''/s/abcd1234/a.png'')) = Some (Mime ''text/plain'')
   \<and> getMimeType ''a.png'' = Mime ''image/png''\<close>
  by code_simp

text \<open>
  C7, as amended. On a hit at a path that \<^verbatim>\<open>getMimeType\<close> classifies with a string:
  when that type contains \<^verbatim>\<open>html\<close> the answer carries that type and the stored
  text rewritten with the base path \<^verbatim>\<open>/s/<siteId>/\<close>; otherwise it carries the
  stored bytes unchanged, with the stored content type when the object has one and
  the classified type when it has none.
\<close>

theorem serveHostedSite_hit:
  assumes "get (''sites/'' @ siteId_of pathname @ ''/'' @ requestedFile_of pathname) = Inr (Some object)"
    and "getMimeType (requestedFile_of pathname) = Mime t"
  shows "serveHostedSite get pathname =
           (if includes_str t ''html'' then
              \<lparr>status = 200,
               headers = \<lparr>Content_Type = Some (Mime t), Cache_Control = Some ''public, max-age=3600''\<rparr>,
               content = fixRelativePaths (text_of object) (''/s/'' @ siteId_of pathname @ ''/'')\<rparr>
            else
              \<lparr>status = 200,
               headers =
                 \<lparr>Content_Type = (case contentType (httpMetadata object) of
                                    None \<Rightarrow> Some (Mime t) | Some stored \<Rightarrow> Some stored),
                  Cache_Control = (case cacheControl (httpMetadata object) of
                                     None \<Rightarrow> Some ''public, max-age=3600'' | Some stored \<Rightarrow> Some stored)\<rparr>,
               content = body object\<rparr>)"
  using assms
  by (simp add: serveHostedSite_def Let_def writeHttpMetadata_def split: option.splits)

theorem serveHostedSite_hit_witness:
  \<open>(let get = bucket_get
        [''sites/abcd1234/index.html'' \<mapsto>
           \<lparr>body = ''<a href="x">x</a>'',
            httpMetadata = \<lparr>contentType = Some (Mime ''text/html''), cacheControl = None\<rparr>\<rparr>,
         ''sites/abcd1234/a.png'' \<mapsto>
           \<lparr>body = ''PNG'',
            httpMetadata = \<lparr>contentType = Some (Mime ''image/png''), cacheControl = None\<rparr>\<rparr>]
     in serveHostedSite get ''/s/abcd1234/index.html'' =
          \<lparr>status = 200,
           headers = \<lparr>Content_Type = Some (Mime ''text/html''),
                      Cache_Control = Some ''public, max-age=3600''\<rparr>,
           content = ''<a href="/s/abcd1234/x">x</a>''\<rparr>
        \<and> serveHostedSite get ''/s/abcd1234/a.png'' =
          \<lparr>status = 200,
           headers = \<lparr>Content_Type = Some (Mime ''image/png''),
                      Cache_Control = Some ''public, max-age=3600''\<rparr>,
           content = ''PNG''\<rparr>)\<close>
proof -
  let ?i = \<open>\<lparr>body = ''<a href="x">x</a>'',
            httpMetadata = \<lparr>contentType = Some (Mime ''text/html''), cacheControl = None\<rparr>\<rparr>\<close>
  let ?a = \<open>\<lparr>body = ''PNG'',
            httpMetadata = \<lparr>contentType = Some (Mime ''image/png''), cacheControl = None\<rparr>\<rparr>\<close>
  let ?get = "bucket_get [''sites/abcd1234/index.html'' \<mapsto> ?i, ''sites/abcd1234/a.png'' \<mapsto> ?a]"
  have i1: "?get (''sites/'' @ siteId_of ''/s/abcd1234/index.html'' @ ''/''
                  @ requestedFile_of ''/s/abcd1234/index.html'') = Inr (Some ?i)"
    by code_simp
  have i2: "getMimeType (requestedFile_of ''/s/abcd1234/index.html'') = Mime ''text/html''"
    by code_simp
  have i3: \<open>(if includes_str ''text/html'' ''html'' then
              \<lparr>status = 200,
               headers = \<lparr>Content_Type = Some (Mime ''text/html''), Cache_Control = Some ''public, max-age=3600''\<rparr>,
               content = fixRelativePaths (text_of ?i) (''/s/'' @ siteId_of ''/s/abcd1234/index.html'' @ ''/'')\<rparr>
            else
              \<lparr>status = 200,
               headers =
                 \<lparr>Content_Type = (case contentType (httpMetadata ?i) of
                                    None \<Rightarrow> Some (Mime ''text/html'') | Some stored \<Rightarrow> Some stored),
                  Cache_Control = (case cacheControl (httpMetadata ?i) of
                                     None \<Rightarrow> Some ''public, max-age=3600'' | Some stored \<Rightarrow> Some stored)\<rparr>,
               content = body ?i\<rparr>)
           = \<lparr>status = 200,
           headers = \<lparr>Content_Type = Some (Mime ''text/html''),
                      Cache_Control = Some ''public, max-age=3600''\<rparr>,
           content = ''<a href="/s/abcd1234/x">x</a>''\<rparr>\<close>
    by code_simp
  have a1: "?get (''sites/'' @ siteId_of ''/s/abcd1234/a.png'' @ ''/''
                  @ requestedFile_of ''/s/abcd1234/a.png'') = Inr (Some ?a)"
    by code_simp
  have a2: "getMimeType (requestedFile_of ''/s/abcd1234/a.png'') = Mime ''image/png''"
    by code_simp
  have a3: "\<not> includes_str ''image/png'' ''html''" by code_simp
  from serveHostedSite_hit [where get = ?get and pathname = "''/s/abcd1234/index.html''"
      and object = ?i and t = "''text/html''", OF i1 i2] i3
  have i: \<open>serveHostedSite ?get ''/s/abcd1234/index.html'' =
          \<lparr>status = 200,
           headers = \<lparr>Content_Type = Some (Mime ''text/html''),
                      Cache_Control = Some ''public, max-age=3600''\<rparr>,
           content = ''<a href="/s/abcd1234/x">x</a>''\<rparr>\<close>
    by simp
  from serveHostedSite_hit [where get = ?get and pathname = "''/s/abcd1234/a.png''"
      and object = ?a and t = "''image/png''", OF a1 a2] a3
  have a: "serveHostedSite ?get ''/s/abcd1234/a.png'' =
          \<lparr>status = 200,
           headers = \<lparr>Content_Type = Some (Mime ''image/png''),
                      Cache_Control = Some ''public, max-age=3600''\<rparr>,
           content = ''PNG''\<rparr>"
    by simp
  from i a show ?thesis unfolding Let_def by blast
qed

section \<open>Extraction\<close>

lemma extract_loop_dir:
  "dir e \<Longrightarrow>
   extract_loop put siteId ((n, e) # entries) files b = extract_loop put siteId entries files b"
  by simp

lemma extract_loop_reject:
  "\<not> dir e \<Longrightarrow> async_uint8array e = Inl err \<Longrightarrow>
   extract_loop put siteId ((n, e) # entries) files b = (b, Inl err)"
  by simp

lemma extract_loop_put:
  "\<not> dir e \<Longrightarrow> async_uint8array e = Inr c \<Longrightarrow>
   extract_loop bucket_put siteId ((n, e) # entries) files b =
     extract_loop bucket_put siteId entries
       (files @ [\<lparr>name = n, type = getMimeType n, size_bytes = length c,
                  path = ''sites/'' @ siteId @ ''/'' @ n\<rparr>])
       (b(''sites/'' @ siteId @ ''/'' @ n \<mapsto>
            \<lparr>body = c, httpMetadata = \<lparr>contentType = Some (getMimeType n), cacheControl = None\<rparr>\<rparr>))"
  by (simp add: bucket_put_def Let_def)

lemmas extract_loop_cons = extract_loop_dir extract_loop_reject extract_loop_put

lemma extract_loop_files:
  assumes "\<forall>(n, e) \<in> set entries. \<not> dir e \<longrightarrow> \<not> isl (async_uint8array e)"
  shows "snd (extract_loop bucket_put siteId entries files b) =
           Inr (files @ map (\<lambda>(n, e). \<lparr>name = n, type = getMimeType n,
                                         size_bytes = length (projr (async_uint8array e)),
                                         path = ''sites/'' @ siteId @ ''/'' @ n\<rparr>)
                            (filter (\<lambda>(n, e). \<not> dir e) entries))"
  using assms
proof (induction entries arbitrary: files b)
  case Nil
  then show ?case by simp
next
  case (Cons x entries)
  obtain n e where x: "x = (n, e)" by (cases x)
  show ?case
  proof (cases "dir e")
    case True
    with Cons x show ?thesis by (simp add: extract_loop_cons del: extract_loop.simps)
  next
    case False
    with Cons.prems x obtain c where c: "async_uint8array e = Inr c"
      by (cases "async_uint8array e") auto
    from Cons.prems have "\<forall>(n, e) \<in> set entries. \<not> dir e \<longrightarrow> \<not> isl (async_uint8array e)"
      by simp
    from Cons.IH [OF this] False x c show ?thesis
      by (simp add: extract_loop_cons del: extract_loop.simps)
  qed
qed

lemma extract_loop_success:
  "extract_loop bucket_put siteId entries files b = (b', Inr files') \<Longrightarrow>
   \<forall>(n, e) \<in> set entries. \<not> dir e \<longrightarrow> \<not> isl (async_uint8array e)"
proof (induction entries arbitrary: files b)
  case Nil
  then show ?case by simp
next
  case (Cons x entries)
  obtain n e where x: "x = (n, e)" by (cases x)
  show ?case
  proof (cases "dir e")
    case True
    with Cons x show ?thesis by (simp add: extract_loop_cons del: extract_loop.simps)
  next
    case False
    with Cons.prems x obtain c where c: "async_uint8array e = Inr c"
      by (cases "async_uint8array e") auto
    with Cons.prems x False Cons.IH show ?thesis
      by (auto simp: extract_loop_cons simp del: extract_loop.simps)
  qed
qed

lemma extract_loop_other_keys:
  "\<forall>(n, e) \<in> set entries. \<not> dir e \<longrightarrow> ''sites/'' @ siteId @ ''/'' @ n \<noteq> k \<Longrightarrow>
   fst (extract_loop bucket_put siteId entries files b) k = b k"
proof (induction entries arbitrary: files b)
  case Nil
  then show ?case by simp
next
  case (Cons x entries)
  obtain n e where x: "x = (n, e)" by (cases x)
  from Cons.prems
  have r: "\<forall>(n, e) \<in> set entries. \<not> dir e \<longrightarrow> ''sites/'' @ siteId @ ''/'' @ n \<noteq> k"
    by simp
  show ?case
  proof (cases "dir e")
    case True
    with Cons.IH [OF r] x show ?thesis by simp
  next
    case False
    with Cons.prems x have k: "''sites/'' @ siteId @ ''/'' @ n \<noteq> k" by simp
    show ?thesis
    proof (cases "async_uint8array e")
      case (Inl err)
      with False x show ?thesis by simp
    next
      case (Inr c)
      with False x k Cons.IH [OF r] show ?thesis
        by (simp add: extract_loop_cons del: extract_loop.simps)
    qed
  qed
qed

lemma extract_loop_member:
  assumes "\<forall>(n, e) \<in> set entries. \<not> dir e \<longrightarrow> \<not> isl (async_uint8array e)"
    and "distinct (map fst entries)"
    and "(n, e) \<in> set entries" and "\<not> dir e"
  shows "fst (extract_loop bucket_put siteId entries files b) (''sites/'' @ siteId @ ''/'' @ n) =
           Some \<lparr>body = projr (async_uint8array e),
                 httpMetadata = \<lparr>contentType = Some (getMimeType n), cacheControl = None\<rparr>\<rparr>"
  using assms
proof (induction entries arbitrary: files b)
  case Nil
  then show ?case by simp
next
  case (Cons x entries)
  obtain n' e' where x: "x = (n', e')" by (cases x)
  from Cons.prems(1)
  have wf: "\<forall>(n, e) \<in> set entries. \<not> dir e \<longrightarrow> \<not> isl (async_uint8array e)" by simp
  from Cons.prems(2) have d: "distinct (map fst entries)" by simp
  show ?case
  proof (cases "(n, e) = (n', e')")
    case True
    with Cons.prems x obtain c where c: "async_uint8array e = Inr c"
      by (cases "async_uint8array e") auto
    from Cons.prems(2) x True have "n \<notin> fst ` set entries" by simp
    then have "\<forall>(m, e) \<in> set entries. \<not> dir e \<longrightarrow>
                 ''sites/'' @ siteId @ ''/'' @ m \<noteq> ''sites/'' @ siteId @ ''/'' @ n"
      by force
    from extract_loop_other_keys [OF this] True x c Cons.prems(4) show ?thesis
      by (simp add: extract_loop_cons del: extract_loop.simps)
  next
    case False
    with Cons.prems(3) x have m: "(n, e) \<in> set entries" by auto
    note ih = Cons.IH [OF wf d m Cons.prems(4)]
    show ?thesis
    proof (cases "dir e'")
      case True
      with ih x show ?thesis by simp
    next
      case False
      with Cons.prems(1) x obtain c where "async_uint8array e' = Inr c"
        by (cases "async_uint8array e'") auto
      with False x ih show ?thesis
        by (simp add: extract_loop_cons del: extract_loop.simps)
    qed
  qed
qed

lemma site_archive_files:
  "snd (extractZip bucket_put (Inr site_archive) ''abcd1234'' Map.empty) =
     Inr [\<lparr>name = ''css/style.css'', type = Mime ''text/css'', size_bytes = 6,
            path = ''sites/abcd1234/css/style.css''\<rparr>,
          \<lparr>name = ''config.json'', type = Mime ''application/json'', size_bytes = 2,
            path = ''sites/abcd1234/config.json''\<rparr>,
          \<lparr>name = ''index.html'', type = Mime ''text/html'', size_bytes = 17,
            path = ''sites/abcd1234/index.html''\<rparr>]"
proof -
  have h: "\<forall>(n, e) \<in> set site_archive. \<not> dir e \<longrightarrow> \<not> isl (async_uint8array e)"
    by (simp add: site_archive_def)
  have m: "map (\<lambda>(n, e). \<lparr>name = n, type = getMimeType n,
                                 size_bytes = length (projr (async_uint8array e)),
                                 path = ''sites/'' @ ''abcd1234'' @ ''/'' @ n\<rparr>)
                    (filter (\<lambda>(n, e). \<not> dir e) site_archive) =
         [\<lparr>name = ''css/style.css'', type = Mime ''text/css'', size_bytes = 6,
            path = ''sites/abcd1234/css/style.css''\<rparr>,
          \<lparr>name = ''config.json'', type = Mime ''application/json'', size_bytes = 2,
            path = ''sites/abcd1234/config.json''\<rparr>,
          \<lparr>name = ''index.html'', type = Mime ''text/html'', size_bytes = 17,
            path = ''sites/abcd1234/index.html''\<rparr>]"
    by code_simp
  from extract_loop_files [OF h, of "''abcd1234''" "[]" Map.empty] m show ?thesis
    by (simp add: extractZip_def)
qed

text \<open>
  C4. For an archive all of whose files decompress (the member names are the keys of
  one object, so they are distinct), extraction returns one entry for each member
  that is not a directory, in order, and none for a directory: the entry has the
  member's name, the type \<^verbatim>\<open>getMimeType\<close> gives for the name, the length of the
  content as size and \<^verbatim>\<open>sites/<siteId>/<name>\<close> as path; and the bucket holds the
  content under that key with that content type.
\<close>

theorem extractZip_entries:
  assumes "\<forall>(n, e) \<in> set entries. \<not> dir e \<longrightarrow> \<not> isl (async_uint8array e)"
    and "distinct (map fst entries)"
  shows "snd (extractZip bucket_put (Inr entries) siteId b) =
           Inr (map (\<lambda>(n, e). \<lparr>name = n, type = getMimeType n,
                                 size_bytes = length (projr (async_uint8array e)),
                                 path = ''sites/'' @ siteId @ ''/'' @ n\<rparr>)
                    (filter (\<lambda>(n, e). \<not> dir e) entries))
         \<and> (\<forall>(n, e) \<in> set entries. \<not> dir e \<longrightarrow>
               fst (extractZip bucket_put (Inr entries) siteId b) (''sites/'' @ siteId @ ''/'' @ n) =
                 Some \<lparr>body = projr (async_uint8array e),
                       httpMetadata = \<lparr>contentType = Some (getMimeType n), cacheControl = None\<rparr>\<rparr>)"
  using extract_loop_files [OF assms(1), of siteId "[]" b]
    extract_loop_member [OF assms, of _ _ siteId "[]" b]
  by (auto simp: extractZip_def)

theorem extractZip_entries_witness:
  "snd (extractZip bucket_put (Inr site_archive) ''abcd1234'' Map.empty) =
     Inr [\<lparr>name = ''css/style.css'', type = Mime ''text/css'', size_bytes = 6,
            path = ''sites/abcd1234/css/style.css''\<rparr>,
          \<lparr>name = ''config.json'', type = Mime ''application/json'', size_bytes = 2,
            path = ''sites/abcd1234/config.json''\<rparr>,
          \<lparr>name = ''index.html'', type = Mime ''text/html'', size_bytes = 17,
            path = ''sites/abcd1234/index.html''\<rparr>]
   \<and> fst (extractZip bucket_put (Inr site_archive) ''abcd1234'' Map.empty)
         ''sites/abcd1234/css/style.css'' =
       Some \<lparr>body = ''body{}'',
             httpMetadata = \<lparr>contentType = Some (Mime ''text/css''), cacheControl = None\<rparr>\<rparr>"
proof -
  have h1: "\<forall>(n, e) \<in> set site_archive. \<not> dir e \<longrightarrow> \<not> isl (async_uint8array e)"
    by (simp add: site_archive_def)
  have h2: "distinct (map fst site_archive)"
    by (simp add: site_archive_def)
  have m: "map (\<lambda>(n, e). \<lparr>name = n, type = getMimeType n,
                                 size_bytes = length (projr (async_uint8array e)),
                                 path = ''sites/'' @ ''abcd1234'' @ ''/'' @ n\<rparr>)
                    (filter (\<lambda>(n, e). \<not> dir e) site_archive) =
         [\<lparr>name = ''css/style.css'', type = Mime ''text/css'', size_bytes = 6,
            path = ''sites/abcd1234/css/style.css''\<rparr>,
          \<lparr>name = ''config.json'', type = Mime ''application/json'', size_bytes = 2,
            path = ''sites/abcd1234/config.json''\<rparr>,
          \<lparr>name = ''index.html'', type = Mime ''text/html'', size_bytes = 17,
            path = ''sites/abcd1234/index.html''\<rparr>]"
    by code_simp
  have c: "(''css/style.css'', \<lparr>dir = False, async_uint8array = Inr ''body{}''\<rparr>) \<in> set site_archive"
    by (simp add: site_archive_def)
  have t: "getMimeType ''css/style.css'' = Mime ''text/css''" by code_simp
  note e = extractZip_entries [OF h1 h2, of "''abcd1234''" Map.empty]
  from e m have 1: "snd (extractZip bucket_put (Inr site_archive) ''abcd1234'' Map.empty) =
     Inr [\<lparr>name = ''css/style.css'', type = Mime ''text/css'', size_bytes = 6,
            path = ''sites/abcd1234/css/style.css''\<rparr>,
          \<lparr>name = ''config.json'', type = Mime ''application/json'', size_bytes = 2,
            path = ''sites/abcd1234/config.json''\<rparr>,
          \<lparr>name = ''index.html'', type = Mime ''text/html'', size_bytes = 17,
            path = ''sites/abcd1234/index.html''\<rparr>]"
    by simp
  from e c t have 2: "fst (extractZip bucket_put (Inr site_archive) ''abcd1234'' Map.empty)
         ''sites/abcd1234/css/style.css'' =
       Some \<lparr>body = ''body{}'',
             httpMetadata = \<lparr>contentType = Some (Mime ''text/css''), cacheControl = None\<rparr>\<rparr>"
    by fastforce
  from 1 2 show ?thesis ..
qed

text \<open>
  C9. After a successful extraction, reading the bucket at the path of any returned
  entry gives an object whose bytes are the content of the member of that name, and
  their length is the entry's size.
\<close>

theorem extractZip_round_trip:
  assumes "extractZip bucket_put (Inr entries) siteId b = (b', Inr files)"
    and "distinct (map fst entries)"
    and "f \<in> set files"
  shows "\<exists>object e. bucket_get b' (path f) = Inr (Some object)
           \<and> (name f, e) \<in> set entries \<and> async_uint8array e = Inr (body object)
           \<and> length (body object) = size_bytes f"
proof -
  from assms(1) have l: "extract_loop bucket_put siteId entries [] b = (b', Inr files)"
    by (simp add: extractZip_def)
  note wf = extract_loop_success [OF l]
  from extract_loop_files [OF wf, of siteId "[]" b] l assms(3)
  obtain n e where ne: "(n, e) \<in> set entries" "\<not> dir e"
    and f: "f = \<lparr>name = n, type = getMimeType n,
                 size_bytes = length (projr (async_uint8array e)),
                 path = ''sites/'' @ siteId @ ''/'' @ n\<rparr>"
    by auto
  from wf ne obtain c where c: "async_uint8array e = Inr c"
    by (cases "async_uint8array e") auto
  from extract_loop_member [OF wf assms(2) ne, of siteId "[]" b] l
  have "b' (''sites/'' @ siteId @ ''/'' @ n) =
          Some \<lparr>body = projr (async_uint8array e),
                httpMetadata = \<lparr>contentType = Some (getMimeType n), cacheControl = None\<rparr>\<rparr>"
    by simp
  with f c ne show ?thesis
    by (auto simp: bucket_get_def)
qed

theorem extractZip_round_trip_witness:
  \<open>\<exists>object e.
      bucket_get (fst (extractZip bucket_put (Inr site_archive) ''abcd1234'' Map.empty))
        ''sites/abcd1234/index.html'' = Inr (Some object)
      \<and> (''index.html'', e) \<in> set site_archive \<and> async_uint8array e = Inr (body object)
      \<and> length (body object) = 17\<close>
proof -
  let ?files = "[\<lparr>name = ''css/style.css'', type = Mime ''text/css'', size_bytes = 6,
            path = ''sites/abcd1234/css/style.css''\<rparr>,
          \<lparr>name = ''config.json'', type = Mime ''application/json'', size_bytes = 2,
            path = ''sites/abcd1234/config.json''\<rparr>,
          \<lparr>name = ''index.html'', type = Mime ''text/html'', size_bytes = 17,
            path = ''sites/abcd1234/index.html''\<rparr>]"
  let ?f = "\<lparr>name = ''index.html'', type = Mime ''text/html'', size_bytes = 17,
            path = ''sites/abcd1234/index.html''\<rparr>"
  have "snd (extractZip bucket_put (Inr site_archive) ''abcd1234'' Map.empty) = Inr ?files"
    by (rule site_archive_files)
  then have h1: "extractZip bucket_put (Inr site_archive) ''abcd1234'' Map.empty =
           (fst (extractZip bucket_put (Inr site_archive) ''abcd1234'' Map.empty), Inr ?files)"
    by (simp add: prod_eq_iff)
  have h2: "distinct (map fst site_archive)" by (simp add: site_archive_def)
  have h3: "?f \<in> set ?files" by simp
  from extractZip_round_trip [OF h1 h2 h3] show ?thesis by simp
qed

section \<open>The manifest\<close>

lemma generated_site_id_segment:
  assumes "generated_site_id s"
  shows "s \<noteq> []" and "CHR ''/'' \<notin> set s"
proof -
  from assms have l: "length s = 8" and a: "\<forall>c \<in> set s. c \<in> set chars"
    by (simp_all add: generated_site_id_def list_all_iff)
  from l show "s \<noteq> []" by auto
  have "CHR ''/'' \<notin> set chars" by (simp add: chars_def)
  with a show "CHR ''/'' \<notin> set s" by blast
qed

lemma handleZipUpload_success:
  assumes "handleZipUpload bucket_put stringify origin now siteName siteId archive b = (b', Inr cfg)"
  shows "\<exists>b1. extractZip bucket_put archive siteId b = (b1, Inr (site_files cfg))
           \<and> b' = b1(''sites/'' @ siteId @ ''/config.json'' \<mapsto>
                       \<lparr>body = stringify cfg, httpMetadata = no_metadata\<rparr>)"
  using assms
  by (auto simp: handleZipUpload_def bucket_put_def Let_def split: prod.splits sum.splits)

lemma serve_config_json:
  assumes "s \<noteq> []" "CHR ''/'' \<notin> set s"
    and "b (''sites/'' @ s @ ''/config.json'') = Some \<lparr>body = manifest, httpMetadata = no_metadata\<rparr>"
  shows "serveHostedSite (bucket_get b) (''/s/'' @ s @ ''/config.json'') =
           \<lparr>status = 200,
            headers = \<lparr>Content_Type = Some (Mime ''application/json''),
                       Cache_Control = Some ''public, max-age=3600''\<rparr>,
            content = manifest\<rparr>"
proof -
  have p: "pathParts (''/s/'' @ s @ ''/config.json'') = [''s'', s, ''config.json'']"
    using pathParts_site_file [OF assms(1,2), of "''config.json''"] by simp
  have sid: "siteId_of (''/s/'' @ s @ ''/config.json'') = s"
    and rf: "requestedFile_of (''/s/'' @ s @ ''/config.json'') = ''config.json''"
    unfolding siteId_of_def requestedFile_of_def p by simp_all
  have m: "getMimeType ''config.json'' = Mime ''application/json''" by code_simp
  have i: "\<not> includes_str ''application/json'' ''html''" by code_simp
  show ?thesis
    unfolding serveHostedSite_def sid rf
    using assms(3) m i
    by (simp add: bucket_get_def writeHttpMetadata_def no_metadata_def)
qed

lemma handleZipUpload_bucket:
  assumes "snd (extractZip bucket_put archive siteId b) = Inr extractedFiles"
    and "findEntryPoint extractedFiles = Inr entry"
  shows "snd (handleZipUpload bucket_put stringify origin now siteName siteId archive b) =
           Inr \<lparr>site_id = siteId, site_name = siteName, site_files = extractedFiles,
                 entryPoint = entry, createdAt = now,
                 url = origin @ ''/s/'' @ siteId,
                 directUrl = origin @ ''/s/'' @ siteId @ ''/'' @ entry\<rparr>"
  using assms
  by (auto simp: handleZipUpload_def bucket_put_def Let_def split: prod.splits sum.splits)

text \<open>
  C10. After a successful upload under a generated identifier, a request for
  \<^verbatim>\<open>/s/<siteId>/config.json\<close> is a hit that answers with the manifest as
  \<^verbatim>\<open>application/json\<close>. A member of the archive named \<^verbatim>\<open>config.json\<close> has the
  manifest's key as its path: extraction writes the member's content there, and
  after the upload the key holds the manifest.
\<close>

theorem manifest_in_served_namespace:
  assumes "handleZipUpload bucket_put stringify origin now siteName siteId archive b = (b', Inr cfg)"
    and "generated_site_id siteId"
  shows "serveHostedSite (bucket_get b') (''/s/'' @ siteId @ ''/config.json'') =
           \<lparr>status = 200,
            headers = \<lparr>Content_Type = Some (Mime ''application/json''),
                       Cache_Control = Some ''public, max-age=3600''\<rparr>,
            content = stringify cfg\<rparr>
         \<and> (\<forall>entries e. archive = Inr entries \<and> distinct (map fst entries)
                \<and> (''config.json'', e) \<in> set entries \<and> \<not> dir e \<longrightarrow>
              (\<exists>f \<in> set (site_files cfg).
                 name f = ''config.json''
                 \<and> path f = ''sites/'' @ siteId @ ''/config.json''
                 \<and> fst (extractZip bucket_put archive siteId b) (path f) =
                     Some \<lparr>body = projr (async_uint8array e),
                           httpMetadata = \<lparr>contentType = Some (Mime ''application/json''),
                                           cacheControl = None\<rparr>\<rparr>
                 \<and> b' (path f) = Some \<lparr>body = stringify cfg, httpMetadata = no_metadata\<rparr>))"
proof (intro conjI allI impI)
  from handleZipUpload_success [OF assms(1)] obtain b1
    where x: "extractZip bucket_put archive siteId b = (b1, Inr (site_files cfg))"
      and b': "b' = b1(''sites/'' @ siteId @ ''/config.json'' \<mapsto>
                       \<lparr>body = stringify cfg, httpMetadata = no_metadata\<rparr>)"
    by blast
  from b' have k: "b' (''sites/'' @ siteId @ ''/config.json'') =
                     Some \<lparr>body = stringify cfg, httpMetadata = no_metadata\<rparr>"
    by simp
  show "serveHostedSite (bucket_get b') (''/s/'' @ siteId @ ''/config.json'') =
           \<lparr>status = 200,
            headers = \<lparr>Content_Type = Some (Mime ''application/json''),
                       Cache_Control = Some ''public, max-age=3600''\<rparr>,
            content = stringify cfg\<rparr>"
    using generated_site_id_segment [OF assms(2)] k
    by (rule serve_config_json [where b = b' and s = siteId and manifest = "stringify cfg"])
  fix entries e
  assume a: "archive = Inr entries \<and> distinct (map fst entries)
                \<and> (''config.json'', e) \<in> set entries \<and> \<not> dir e"
  then have ar: "archive = Inr entries" and d: "distinct (map fst entries)"
    and m: "(''config.json'', e) \<in> set entries" and nd: "\<not> dir e" by simp_all
  from x ar have l: "extract_loop bucket_put siteId entries [] b = (b1, Inr (site_files cfg))"
    by (simp add: extractZip_def)
  note wf = extract_loop_success [OF l]
  let ?f = "\<lparr>name = ''config.json'', type = getMimeType ''config.json'',
             size_bytes = length (projr (async_uint8array e)),
             path = ''sites/'' @ siteId @ ''/'' @ ''config.json''\<rparr>"
  from extract_loop_files [OF wf, of siteId "[]" b] l
  have "site_files cfg = map (\<lambda>(n, e). \<lparr>name = n, type = getMimeType n,
                                 size_bytes = length (projr (async_uint8array e)),
                                 path = ''sites/'' @ siteId @ ''/'' @ n\<rparr>)
                    (filter (\<lambda>(n, e). \<not> dir e) entries)"
    by simp
  with m nd have f: "?f \<in> set (site_files cfg)" by force
  have t: "getMimeType ''config.json'' = Mime ''application/json''" by code_simp
  from extract_loop_member [OF wf d m nd, of siteId "[]" b] l t
  have w: "b1 (''sites/'' @ siteId @ ''/'' @ ''config.json'') =
             Some \<lparr>body = projr (async_uint8array e),
                   httpMetadata = \<lparr>contentType = Some (Mime ''application/json''),
                                   cacheControl = None\<rparr>\<rparr>"
    by simp
  from f w k x show "\<exists>f \<in> set (site_files cfg).
                 name f = ''config.json''
                 \<and> path f = ''sites/'' @ siteId @ ''/config.json''
                 \<and> fst (extractZip bucket_put archive siteId b) (path f) =
                     Some \<lparr>body = projr (async_uint8array e),
                           httpMetadata = \<lparr>contentType = Some (Mime ''application/json''),
                                           cacheControl = None\<rparr>\<rparr>
                 \<and> b' (path f) = Some \<lparr>body = stringify cfg, httpMetadata = no_metadata\<rparr>"
    by (intro bexI [of _ ?f]) simp_all
qed

theorem manifest_in_served_namespace_witness:
  \<open>(let stringify = (\<lambda>c. ''{"id":"'' @ site_id c @ ''","entryPoint":"'' @ entryPoint c @ ''"}'');
        b' = fst (handleZipUpload bucket_put stringify ''https://h.example'' ''2024-01-01T00:00:00.000Z''
                    ''demo'' ''abcd1234'' (Inr site_archive) Map.empty)
    in serveHostedSite (bucket_get b') ''/s/abcd1234/config.json'' =
         \<lparr>status = 200,
          headers = \<lparr>Content_Type = Some (Mime ''application/json''),
                     Cache_Control = Some ''public, max-age=3600''\<rparr>,
          content = ''{"id":"abcd1234","entryPoint":"index.html"}''\<rparr>
       \<and> fst (extractZip bucket_put (Inr site_archive) ''abcd1234'' Map.empty)
             ''sites/abcd1234/config.json'' =
           Some \<lparr>body = ''{}'',
                 httpMetadata = \<lparr>contentType = Some (Mime ''application/json''),
                                 cacheControl = None\<rparr>\<rparr>
       \<and> b' ''sites/abcd1234/config.json'' =
           Some \<lparr>body = ''{"id":"abcd1234","entryPoint":"index.html"}'',
                 httpMetadata = no_metadata\<rparr>)\<close>
proof -
  let ?s = \<open>\<lambda>c. ''{"id":"'' @ site_id c @ ''","entryPoint":"'' @ entryPoint c @ ''"}''\<close>
  let ?up = "handleZipUpload bucket_put ?s ''https://h.example'' ''2024-01-01T00:00:00.000Z''
                    ''demo'' ''abcd1234'' (Inr site_archive) Map.empty"
  let ?cfg = "\<lparr>site_id = ''abcd1234'', site_name = ''demo'',
       site_files = [\<lparr>name = ''css/style.css'', type = Mime ''text/css'', size_bytes = 6,
            path = ''sites/abcd1234/css/style.css''\<rparr>,
          \<lparr>name = ''config.json'', type = Mime ''application/json'', size_bytes = 2,
            path = ''sites/abcd1234/config.json''\<rparr>,
          \<lparr>name = ''index.html'', type = Mime ''text/html'', size_bytes = 17,
            path = ''sites/abcd1234/index.html''\<rparr>],
       entryPoint = ''index.html'', createdAt = ''2024-01-01T00:00:00.000Z'',
       url = ''https://h.example/s/abcd1234'',
       directUrl = ''https://h.example/s/abcd1234/index.html''\<rparr>"
  let ?e = "\<lparr>dir = False, async_uint8array = Inr ''{}''\<rparr>"
  have "findEntryPoint (site_files ?cfg) = Inr ''index.html''" by code_simp
  with site_archive_files have "snd ?up = Inr ?cfg"
    using handleZipUpload_bucket [where archive = "Inr site_archive" and siteId = "''abcd1234''"
        and b = Map.empty and extractedFiles = "site_files ?cfg" and entry = "''index.html''"
        and stringify = ?s and origin = "''https://h.example''"
        and now = "''2024-01-01T00:00:00.000Z''" and siteName = "''demo''"]
    by simp
  then have h1: "?up = (fst ?up, Inr ?cfg)" by (simp add: prod_eq_iff)
  have h2: "generated_site_id ''abcd1234''" by code_simp
  have s: \<open>?s ?cfg = ''{"id":"abcd1234","entryPoint":"index.html"}''\<close> by simp
  have m: "Inr site_archive = Inr site_archive \<and> distinct (map fst site_archive)
           \<and> (''config.json'', ?e) \<in> set site_archive \<and> \<not> dir ?e"
    by (simp add: site_archive_def)
  note t = manifest_in_served_namespace [OF h1 h2]
  from t s have 1: \<open>serveHostedSite (bucket_get (fst ?up)) ''/s/abcd1234/config.json'' =
         \<lparr>status = 200,
          headers = \<lparr>Content_Type = Some (Mime ''application/json''),
                     Cache_Control = Some ''public, max-age=3600''\<rparr>,
          content = ''{"id":"abcd1234","entryPoint":"index.html"}''\<rparr>\<close>
    by simp
  note u = t [THEN conjunct2, rule_format, of site_archive ?e, OF m]
  from u s have 23: \<open>fst (extractZip bucket_put (Inr site_archive) ''abcd1234'' Map.empty)
             ''sites/abcd1234/config.json'' =
           Some \<lparr>body = ''{}'',
                 httpMetadata = \<lparr>contentType = Some (Mime ''application/json''),
                                 cacheControl = None\<rparr>\<rparr>
     \<and> fst ?up ''sites/abcd1234/config.json'' =
           Some \<lparr>body = ''{"id":"abcd1234","entryPoint":"index.html"}'',
                 httpMetadata = no_metadata\<rparr>\<close>
    by (elim bexE conjE) simp
  from 1 23 show ?thesis unfolding Let_def by (intro conjI) simp_all
qed

section \<open>The entry point of an uploaded site\<close>

text \<open>
  C1. The claim: when some file name matches one of the five entry point names without
  regard to case, \<^verbatim>\<open>findEntryPoint\<close> returns that file's stored name, so that the
  entry point is always the name of a file of the site. The worker returns the
  lower-case name of its own list instead. For the single file \<^verbatim>\<open>Index.HTML\<close> it
  answers \<^verbatim>\<open>index.html\<close>, the name of no file of the site; the upload of that
  archive succeeds, and the \<^verbatim>\<open>directUrl\<close> it reports is answered with 404.
\<close>

theorem findEntryPoint_returns_list_entry:
  \<open>(let files = [\<lparr>name = ''Index.HTML'', type = Mime ''text/html'', size_bytes = 12,
                    path = ''sites/abcd1234/Index.HTML''\<rparr>]
    in findEntryPoint files = Inr ''index.html'' \<and> ''index.html'' \<notin> set (map name files))
   \<and> (let archive = Inr [(''Index.HTML'', \<lparr>dir = False, async_uint8array = Inr ''<p>hello</p>''\<rparr>)];
          up = handleZipUpload bucket_put (\<lambda>c. ''{}'') ''https://h.example''
                 ''2024-01-01T00:00:00.000Z'' ''demo'' ''abcd1234'' archive Map.empty
      in \<exists>cfg. snd up = Inr cfg
           \<and> directUrl cfg = ''https://h.example/s/abcd1234/index.html''
           \<and> serveHostedSite (bucket_get (fst up)) ''/s/abcd1234/index.html'' = not_found)\<close>
proof -
  let ?f = "\<lparr>name = ''Index.HTML'', type = Mime ''text/html'', size_bytes = 12,
                    path = ''sites/abcd1234/Index.HTML''\<rparr>"
  let ?e = "\<lparr>dir = False, async_uint8array = Inr ''<p>hello</p>''\<rparr>"
  let ?s = "\<lambda>c :: siteConfig. ''{}''"
  let ?up = "handleZipUpload bucket_put ?s ''https://h.example''
                 ''2024-01-01T00:00:00.000Z'' ''demo'' ''abcd1234'' (Inr [(''Index.HTML'', ?e)]) Map.empty"
  let ?cfg = "\<lparr>site_id = ''abcd1234'', site_name = ''demo'', site_files = [?f],
       entryPoint = ''index.html'', createdAt = ''2024-01-01T00:00:00.000Z'',
       url = ''https://h.example/s/abcd1234'',
       directUrl = ''https://h.example/s/abcd1234/index.html''\<rparr>"
  have e: "findEntryPoint [?f] = Inr ''index.html''" by code_simp
  have t: "getMimeType ''Index.HTML'' = Mime ''text/html''" by code_simp
  have wf: "\<forall>(n, e) \<in> set [(''Index.HTML'', ?e)]. \<not> dir e \<longrightarrow> \<not> isl (async_uint8array e)"
    by simp
  from extract_loop_files [OF wf, of "''abcd1234''" "[]" Map.empty] t
  have x: "snd (extractZip bucket_put (Inr [(''Index.HTML'', ?e)]) ''abcd1234'' Map.empty) = Inr [?f]"
    by (simp add: extractZip_def del: extract_loop.simps)
  from handleZipUpload_bucket [OF x e, of ?s "''https://h.example''" "''2024-01-01T00:00:00.000Z''" "''demo''"]
  have c: "snd ?up = Inr ?cfg" by simp
  then have "?up = (fst ?up, Inr ?cfg)" by (simp add: prod_eq_iff)
  from handleZipUpload_success [OF this] obtain b1
    where b1: "extractZip bucket_put (Inr [(''Index.HTML'', ?e)]) ''abcd1234'' Map.empty = (b1, Inr [?f])"
      and up: "fst ?up = b1(''sites/'' @ ''abcd1234'' @ ''/config.json'' \<mapsto>
                       \<lparr>body = ?s ?cfg, httpMetadata = no_metadata\<rparr>)"
    by auto
  have "\<forall>(n, e) \<in> set [(''Index.HTML'', ?e)]. \<not> dir e \<longrightarrow>
          ''sites/'' @ ''abcd1234'' @ ''/'' @ n \<noteq> ''sites/abcd1234/index.html''"
    by simp
  from extract_loop_other_keys [OF this, where files = "[]" and b = Map.empty] b1
  have "b1 ''sites/abcd1234/index.html'' = None"
    by (simp add: extractZip_def del: extract_loop.simps)
  with up have k: "fst ?up ''sites/abcd1234/index.html'' = None" by simp
  have p: "siteId_of ''/s/abcd1234/index.html'' = ''abcd1234''"
    "requestedFile_of ''/s/abcd1234/index.html'' = ''index.html''"
    by code_simp+
  have s: "serveHostedSite (bucket_get (fst ?up)) ''/s/abcd1234/index.html'' = not_found"
    unfolding serveHostedSite_def p using k by (simp add: bucket_get_def)
  have n: "''index.html'' \<notin> set (map name [?f])" by simp
  from e n c s show ?thesis unfolding Let_def by auto
qed

lemma handleZipUpload_no_entry_point:
  assumes "snd (extractZip bucket_put archive siteId b) = Inr extractedFiles"
    and "findEntryPoint extractedFiles = Inl e"
  shows "snd (handleZipUpload bucket_put stringify origin now siteName siteId archive b) = Inl e"
  using assms
  by (auto simp: handleZipUpload_def split: prod.splits sum.splits)

text \<open>
  C5. The claim: on a non-empty sequence without an entry point name
  \<^verbatim>\<open>findEntryPoint\<close> returns the name of the first HTML entry, or of the first entry,
  and so never fails. For a member named \<^verbatim>\<open>x.constructor\<close> \<^verbatim>\<open>getMimeType\<close> answers
  with the constructor every object inherits, which is not a string; extraction
  passes it on as the entry's type, \<^verbatim>\<open>f.type.includes\<close> raises a \<open>TypeError\<close> in
  the filter, and the upload of an archive with the members \<^verbatim>\<open>a.html\<close> and
  \<^verbatim>\<open>x.constructor\<close> fails where the claim has it resolve to \<^verbatim>\<open>a.html\<close>.
\<close>

theorem findEntryPoint_fails_on_inherited_type:
  \<open>(let archive = [(''a.html'', \<lparr>dir = False, async_uint8array = Inr ''<p>a</p>''\<rparr>),
                   (''x.constructor'', \<lparr>dir = False, async_uint8array = Inr ''x''\<rparr>)];
        files = [\<lparr>name = ''a.html'', type = Mime ''text/html'', size_bytes = 8,
                  path = ''sites/abcd1234/a.html''\<rparr>,
                 \<lparr>name = ''x.constructor'', type = Inherited, size_bytes = 1,
                  path = ''sites/abcd1234/x.constructor''\<rparr>]
    in snd (extractZip bucket_put (Inr archive) ''abcd1234'' Map.empty) = Inr files
       \<and> files \<noteq> []
       \<and> \<not> list_ex (\<lambda>f. toLowerCase (name f) \<in> set entryPoints) files
       \<and> findEntryPoint files = Inl TypeError
       \<and> snd (handleZipUpload bucket_put (\<lambda>c. ''{}'') ''https://h.example''
                 ''2024-01-01T00:00:00.000Z'' ''demo'' ''abcd1234'' (Inr archive) Map.empty)
           = Inl TypeError)\<close>
proof -
  let ?archive = "[(''a.html'', \<lparr>dir = False, async_uint8array = Inr ''<p>a</p>''\<rparr>),
                   (''x.constructor'', \<lparr>dir = False, async_uint8array = Inr ''x''\<rparr>)]"
  let ?files = "[\<lparr>name = ''a.html'', type = Mime ''text/html'', size_bytes = 8,
                  path = ''sites/abcd1234/a.html''\<rparr>,
                 \<lparr>name = ''x.constructor'', type = Inherited, size_bytes = 1,
                  path = ''sites/abcd1234/x.constructor''\<rparr>]"
  have wf: "\<forall>(n, e) \<in> set ?archive. \<not> dir e \<longrightarrow> \<not> isl (async_uint8array e)" by simp
  have m: "map (\<lambda>(n, e). \<lparr>name = n, type = getMimeType n,
                                 size_bytes = length (projr (async_uint8array e)),
                                 path = ''sites/'' @ ''abcd1234'' @ ''/'' @ n\<rparr>)
                    (filter (\<lambda>(n, e). \<not> dir e) ?archive) = ?files"
    by code_simp
  from extract_loop_files [OF wf, of "''abcd1234''" "[]" Map.empty] m
  have x: "snd (extractZip bucket_put (Inr ?archive) ''abcd1234'' Map.empty) = Inr ?files"
    by (simp add: extractZip_def del: extract_loop.simps)
  have n: "\<not> list_ex (\<lambda>f. toLowerCase (name f) \<in> set entryPoints) ?files" by code_simp
  have e: "findEntryPoint ?files = Inl TypeError" by code_simp
  note u = handleZipUpload_no_entry_point [OF x e, of "\<lambda>c. ''{}''" "''https://h.example''"
      "''2024-01-01T00:00:00.000Z''" "''demo''"]
  from x n e u show ?thesis unfolding Let_def by simp
qed

section \<open>Rewriting\<close>

subsection \<open>The replacement string without dollar signs, and what a match is\<close>

lemma GetSubstitution_literal:
  "c \<noteq> CHR ''$'' \<Longrightarrow> s \<noteq> [] \<Longrightarrow>
   GetSubstitution m pre post caps (c # s) = c # GetSubstitution m pre post caps s"
  by (cases s) simp_all

lemma GetSubstitution_no_dollar:
  "CHR ''$'' \<notin> set b \<Longrightarrow> s \<noteq> [] \<Longrightarrow>
   GetSubstitution m pre post caps (b @ s) = b @ GetSubstitution m pre post caps s"
proof (induction b)
  case Nil
  then show ?case by simp
next
  case (Cons c b)
  then have "c \<noteq> CHR ''$''" and "b @ s \<noteq> []" by auto
  from GetSubstitution_literal [OF this] Cons show ?case by simp
qed

lemma GetSubstitution_groups_2_3:
  "GetSubstitution m pre post [g1, g2, g3] ''$2$3'' = g2 @ g3"
  by (simp add: is_digit_def digit_value_def)

lemma GetSubstitution_group_1:
  assumes "t \<noteq> []"
  shows "GetSubstitution m pre post [g1, g2, g3] (CHR ''$'' # CHR ''1'' # t) =
           g1 @ GetSubstitution m pre post [g1, g2, g3] t"
proof -
  from assms obtain e t' where t: "t = e # t'" by (cases t) auto
  show ?thesis unfolding t
    by (simp add: is_digit_def digit_value_def Let_def)
qed

lemma GetSubstitution_template:
  assumes "CHR ''$'' \<notin> set basePath"
  shows "GetSubstitution m pre post [g1, g2, g3] (''$1'' @ basePath @ ''$2$3'') =
           g1 @ basePath @ g2 @ g3"
proof -
  have "GetSubstitution m pre post [g1, g2, g3] (''$1'' @ basePath @ ''$2$3'') =
          g1 @ GetSubstitution m pre post [g1, g2, g3] (basePath @ ''$2$3'')"
    using GetSubstitution_group_1 [of "basePath @ ''$2$3''"] by simp
  also have "GetSubstitution m pre post [g1, g2, g3] (basePath @ ''$2$3'') =
          basePath @ GetSubstitution m pre post [g1, g2, g3] ''$2$3''"
    by (rule GetSubstitution_no_dollar [OF assms]) simp
  finally show ?thesis by (simp only: GetSubstitution_groups_2_3)
qed

lemma value_then_quote_Some:
  "value_then_quote r = Some (v, q, rest) \<Longrightarrow>
   r = v @ q # rest \<and> is_quote q \<and> (\<forall>c \<in> set v. \<not> is_quote c)"
  by (induction r arbitrary: v) (auto split: if_splits option.splits)

lemma value_then_quote_eq:
  "\<forall>c \<in> set v. \<not> is_quote c \<Longrightarrow> is_quote q \<Longrightarrow>
   value_then_quote (v @ q # rest) = Some (v, q, rest)"
  by (induction v) auto

lemma attempt_Some:
  assumes "attempt p s = Some (a, v, g3, rest)"
  shows "\<exists>q q'. s = attr p @ q # v @ q' # rest \<and> is_quote q \<and> is_quote q'
           \<and> \<not> list_ex (startsWith (v @ q' # rest)) (excluded p)
           \<and> a = attr p @ [q] \<and> g3 = [q'] \<and> (\<forall>c \<in> set v. \<not> is_quote c)"
proof -
  from assms have pre: "prefix (attr p) s"
    by (auto simp: attempt_def startsWith_def split: if_splits)
  then have s: "s = attr p @ drop (length (attr p)) s"
    by (auto simp: prefix_def)
  from assms pre obtain q r q' where d: "drop (length (attr p)) s = q # r"
    and q: "is_quote q" and e: "\<not> list_ex (startsWith r) (excluded p)"
    and v: "value_then_quote r = Some (v, q', rest)"
    and a: "a = attr p @ [q]" "g3 = [q']"
    by (auto simp: attempt_def startsWith_def split: if_splits list.splits option.splits)
  from value_then_quote_Some [OF v] s d q e a show ?thesis
    by (intro exI [of _ q] exI [of _ q']) auto
qed

lemma attempt_eq:
  assumes "is_quote q" "is_quote q'" "\<forall>c \<in> set v. \<not> is_quote c"
    and "\<not> list_ex (startsWith (v @ q' # rest)) (excluded p)"
  shows "attempt p (attr p @ q # v @ q' # rest) = Some (attr p @ [q], v, [q'], rest)"
  using assms value_then_quote_eq [OF assms(3,2), of rest]
  by (simp add: attempt_def startsWith_def)

lemma replace_from_match:
  "match_at p s = Some (g1, g2, g3, rest) \<Longrightarrow>
   replace_from p t pre s =
     GetSubstitution (g1 @ g2 @ g3) pre rest [g1, g2, g3] t
     @ replace_from p t (pre @ g1 @ g2 @ g3) rest"
  by (simp add: replace_from.simps [of _ _ _ s])

lemma excluded_prefix:
  assumes "\<forall>c \<in> set e. \<not> is_quote c" "is_quote q'"
  shows "prefix e (v @ q' # y) \<longleftrightarrow> prefix e v"
proof
  assume "prefix e (v @ q' # y)"
  then consider "prefix e v" | us where "e = v @ us" "prefix us (q' # y)"
    by (auto simp: prefix_append)
  then show "prefix e v"
  proof cases
    case 1
    then show ?thesis .
  next
    case 2
    with assms have "us = []" by (cases us) auto
    with 2 show ?thesis by simp
  qed
next
  assume "prefix e v"
  then show "prefix e (v @ q' # y)" by (rule prefix_prefix)
qed

lemma excluded_value:
  assumes "\<forall>e \<in> set (excluded p). \<forall>c \<in> set e. \<not> is_quote c" "is_quote q'"
  shows "list_ex (startsWith (v @ q' # y)) (excluded p) \<longleftrightarrow> list_ex (startsWith v) (excluded p)"
proof -
  have "startsWith (v @ q' # y) e \<longleftrightarrow> startsWith v e" if "e \<in> set (excluded p)" for e
    using that assms excluded_prefix [of e q' v y] by (simp add: startsWith_def)
  then show ?thesis unfolding list_ex_iff by blast
qed

subsection \<open>The matcher finds the occurrence with the longest run\<close>

lemma spec_quote_is_quote: "spec_quote c = is_quote c"
  by (simp add: spec_quote_def is_quote_def)

lemma star_attempt_None_iff:
  "star_attempt p r = None \<Longrightarrow> r = k2 @ r2 \<Longrightarrow> CHR ''>'' \<notin> set k2 \<Longrightarrow> attempt p r2 = None"
proof (induction r arbitrary: k2)
  case Nil
  then show ?case by (auto split: option.splits)
next
  case (Cons c cs)
  show ?case
  proof (cases k2)
    case Nil
    with Cons.prems show ?thesis by (auto split: option.splits if_splits)
  next
    case (Cons d k2')
    with Cons.prems have c: "c \<noteq> CHR ''>''" and cs: "cs = k2' @ r2" and k: "CHR ''>'' \<notin> set k2'"
      by auto
    with Cons.prems(1) have "star_attempt p cs = None"
      by (auto split: option.splits)
    from Cons.IH [OF this cs k] show ?thesis .
  qed
qed

lemma star_attempt_split:
  "star_attempt p r = Some (k, a, v, g3, rest) \<Longrightarrow>
   \<exists>r'. r = k @ r' \<and> CHR ''>'' \<notin> set k \<and> attempt p r' = Some (a, v, g3, rest)"
proof (induction r arbitrary: k)
  case Nil
  then show ?case by (auto split: option.splits)
next
  case (Cons c cs)
  show ?case
  proof (cases "c \<noteq> CHR ''>'' \<and> star_attempt p cs \<noteq> None")
    case True
    then obtain sk a' v' g' rest' where s: "star_attempt p cs = Some (sk, a', v', g', rest')"
      by (cases "star_attempt p cs") auto
    with True Cons.prems have e: "k = c # sk" "a' = a" "v' = v" "g' = g3" "rest' = rest" by auto
    from Cons.IH [of sk] s e obtain r' where "cs = sk @ r'" "CHR ''>'' \<notin> set sk"
      "attempt p r' = Some (a, v, g3, rest)" by auto
    with True e show ?thesis by auto
  next
    case False
    with Cons.prems have "k = []" "attempt p (c # cs) = Some (a, v, g3, rest)"
      by (auto split: option.splits if_splits)
    then show ?thesis by auto
  qed
qed

lemma star_attempt_longest:
  "star_attempt p r = Some (k, a, v, g3, rest) \<Longrightarrow> r = k2 @ r2 \<Longrightarrow> CHR ''>'' \<notin> set k2 \<Longrightarrow>
   attempt p r2 \<noteq> None \<Longrightarrow> length k2 \<le> length k"
proof (induction r arbitrary: k k2)
  case Nil
  then show ?case by simp
next
  case (Cons c cs)
  show ?case
  proof (cases k2)
    case Nil
    then show ?thesis by simp
  next
    case k2: (Cons d k2')
    with Cons.prems have c: "c \<noteq> CHR ''>''" and cs: "cs = k2' @ r2" and k': "CHR ''>'' \<notin> set k2'"
      by auto
    show ?thesis
    proof (cases "star_attempt p cs")
      case None
      from star_attempt_None_iff [OF None cs k'] Cons.prems(4) show ?thesis by simp
    next
      case (Some x)
      obtain sk a' v' g' rest' where x: "x = (sk, a', v', g', rest')" by (cases x)
      with Some c Cons.prems(1) have e: "k = c # sk" "a' = a" "v' = v" "g' = g3" "rest' = rest"
        by auto
      from Cons.IH [of sk k2'] Some x e cs k' Cons.prems(4) have "length k2' \<le> length sk" by auto
      with e k2 show ?thesis by simp
    qed
  qed
qed

lemma attempt_occurrence:
  assumes ex: "\<forall>e \<in> set (excluded p). \<forall>c \<in> set e. \<not> is_quote c"
  shows "attempt p r = Some (a, v, g3, rest) \<longleftrightarrow>
           (\<exists>q q'. r = attr p @ [q] @ v @ [q'] @ rest \<and> is_quote q \<and> is_quote q'
              \<and> (\<forall>c \<in> set v. \<not> is_quote c) \<and> (\<forall>e \<in> set (excluded p). \<not> prefix e v)
              \<and> a = attr p @ [q] \<and> g3 = [q'])"
proof
  assume "attempt p r = Some (a, v, g3, rest)"
  from attempt_Some [OF this] obtain q q' where r: "r = attr p @ q # v @ q' # rest"
    and q: "is_quote q" "is_quote q'"
    and e: "\<not> list_ex (startsWith (v @ q' # rest)) (excluded p)"
    and a: "a = attr p @ [q]" "g3 = [q']" and v: "\<forall>c \<in> set v. \<not> is_quote c"
    by blast
  from e have "\<not> list_ex (startsWith v) (excluded p)"
    by (simp add: excluded_value [OF ex q(2)])
  then have "\<forall>e \<in> set (excluded p). \<not> prefix e v"
    by (simp add: list_ex_iff startsWith_def)
  with r q a v show "\<exists>q q'. r = attr p @ [q] @ v @ [q'] @ rest \<and> is_quote q \<and> is_quote q'
              \<and> (\<forall>c \<in> set v. \<not> is_quote c) \<and> (\<forall>e \<in> set (excluded p). \<not> prefix e v)
              \<and> a = attr p @ [q] \<and> g3 = [q']"
    by auto
next
  assume "\<exists>q q'. r = attr p @ [q] @ v @ [q'] @ rest \<and> is_quote q \<and> is_quote q'
              \<and> (\<forall>c \<in> set v. \<not> is_quote c) \<and> (\<forall>e \<in> set (excluded p). \<not> prefix e v)
              \<and> a = attr p @ [q] \<and> g3 = [q']"
  then obtain q q' where r: "r = attr p @ q # v @ q' # rest"
    and q: "is_quote q" "is_quote q'" and v: "\<forall>c \<in> set v. \<not> is_quote c"
    and e: "\<forall>e \<in> set (excluded p). \<not> prefix e v" and a: "a = attr p @ [q]" "g3 = [q']"
    by auto
  from e have "\<not> list_ex (startsWith v) (excluded p)"
    by (simp add: list_ex_iff startsWith_def)
  then have "\<not> list_ex (startsWith (v @ q' # rest)) (excluded p)"
    by (simp add: excluded_value [OF ex q(2)])
  from attempt_eq [OF q v this] r a show "attempt p r = Some (a, v, g3, rest)" by simp
qed

lemma match_at_occurrence:
  assumes ex: "\<forall>e \<in> set (excluded p). \<forall>c \<in> set e. \<not> is_quote c"
    and m: "match_at p s = Some (g1, v, g3, rest)"
  shows "\<exists>between q q'. g1 = tag p @ between @ attr p @ [q] \<and> g3 = [q']
           \<and> spec_occurrence (tag p) (attr p) (excluded p) s between q v q' rest
           \<and> (\<forall>between2 q2 v2 q2' rest2.
                spec_occurrence (tag p) (attr p) (excluded p) s between2 q2 v2 q2' rest2 \<longrightarrow>
                length between2 \<le> length between)"
proof -
  from m have pre: "prefix (tag p) s"
    by (auto simp: match_at_def startsWith_def split: if_splits)
  then obtain r where s: "s = tag p @ r" by (auto simp: prefix_def)
  with m pre obtain k a where st: "star_attempt p r = Some (k, a, v, g3, rest)"
    and g1: "g1 = tag p @ k @ a"
    by (auto simp: match_at_def startsWith_def split: if_splits option.splits)
  from star_attempt_split [OF st] obtain r' where r: "r = k @ r'" and k: "CHR ''>'' \<notin> set k"
    and at: "attempt p r' = Some (a, v, g3, rest)" by blast
  from at attempt_occurrence [OF ex] obtain q q' where r': "r' = attr p @ [q] @ v @ [q'] @ rest"
    and q: "is_quote q" "is_quote q'" and v: "\<forall>c \<in> set v. \<not> is_quote c"
    and e: "\<forall>e \<in> set (excluded p). \<not> prefix e v" and a: "a = attr p @ [q]" "g3 = [q']"
    by blast
  have occ: "spec_occurrence (tag p) (attr p) (excluded p) s k q v q' rest"
    using s r r' k q v e by (simp add: spec_occurrence_def spec_quote_is_quote)
  have "length k2 \<le> length k"
    if o2: "spec_occurrence (tag p) (attr p) (excluded p) s k2 q2 v2 q2' rest2" for k2 q2 v2 q2' rest2
  proof -
    from o2 s have r2: "r = k2 @ attr p @ [q2] @ v2 @ [q2'] @ rest2" and k2: "CHR ''>'' \<notin> set k2"
      by (simp_all add: spec_occurrence_def)
    from o2 have "attempt p (attr p @ [q2] @ v2 @ [q2'] @ rest2) = Some (attr p @ [q2], v2, [q2'], rest2)"
      unfolding attempt_occurrence [OF ex]
      by (auto simp: spec_occurrence_def spec_quote_is_quote)
    then have "attempt p (attr p @ [q2] @ v2 @ [q2'] @ rest2) \<noteq> None" by simp
    from star_attempt_longest [OF st r2 k2 this] show ?thesis .
  qed
  with occ g1 a show ?thesis by blast
qed

lemma no_match_no_occurrence:
  assumes ex: "\<forall>e \<in> set (excluded p). \<forall>c \<in> set e. \<not> is_quote c"
    and m: "match_at p s = None"
  shows "\<not> spec_occurrence (tag p) (attr p) (excluded p) s between q v q' rest"
proof
  assume o: "spec_occurrence (tag p) (attr p) (excluded p) s between q v q' rest"
  then have s: "s = tag p @ between @ attr p @ [q] @ v @ [q'] @ rest"
    and k: "CHR ''>'' \<notin> set between"
    by (simp_all add: spec_occurrence_def)
  from s m have st: "star_attempt p (between @ attr p @ [q] @ v @ [q'] @ rest) = None"
    by (auto simp: match_at_def startsWith_def split: if_splits option.splits)
  from o have "attempt p (attr p @ [q] @ v @ [q'] @ rest) = Some (attr p @ [q], v, [q'], rest)"
    unfolding attempt_occurrence [OF ex]
    by (auto simp: spec_occurrence_def spec_quote_is_quote)
  with star_attempt_None_iff [OF st refl k] show False by simp
qed

subsection \<open>A pass does what the second description says, and nothing else does\<close>

lemma replace_from_spec_pass:
  assumes "\<forall>e \<in> set (excluded p). \<forall>c \<in> set e. \<not> is_quote c"
    and "\<forall>m pre post g1 g2 g3. GetSubstitution m pre post [g1, g2, g3] t = g1 @ basePath @ g2 @ g3"
  shows "spec_pass (tag p) (attr p) (excluded p) basePath s (replace_from p t pre s)"
  using assms
proof (induction p t pre s rule: replace_from.induct)
  case (1 p t pre s)
  note ex = "1.prems"(1) and gs = "1.prems"(2)
  show ?case
  proof (cases "match_at p s")
    case None
    show ?thesis
    proof (cases s)
      case Nil
      with None show ?thesis
        by (simp add: replace_from.simps [of p t pre "[]"] spec_pass.Finished)
    next
      case (Cons c cs)
      from "1.IH"(1) [OF None Cons ex gs]
      have ih: "spec_pass (tag p) (attr p) (excluded p) basePath cs (replace_from p t (pre @ [c]) cs)" .
      from no_match_no_occurrence [OF ex None] Cons
      have "\<forall>between q v q' rest.
              \<not> spec_occurrence (tag p) (attr p) (excluded p) (c # cs) between q v q' rest"
        by simp
      from spec_pass.Keep [OF this ih] None Cons show ?thesis
        by (simp add: replace_from.simps [of p t pre "c # cs"])
    qed
  next
    case (Some x)
    obtain g1 v g3 rest where x: "x = (g1, v, g3, rest)" by (cases x)
    from Some x have m: "match_at p s = Some (g1, v, g3, rest)" by simp
    from "1.IH"(2) [OF Some x [symmetric] refl refl ex gs]
    have ih: "spec_pass (tag p) (attr p) (excluded p) basePath rest
                (replace_from p t (pre @ g1 @ v @ g3) rest)" .
    from match_at_occurrence [OF ex m] obtain between q q'
      where g: "g1 = tag p @ between @ attr p @ [q]" "g3 = [q']"
        and occ: "spec_occurrence (tag p) (attr p) (excluded p) s between q v q' rest"
        and mx: "\<forall>between2 q2 v2 q2' rest2.
                   spec_occurrence (tag p) (attr p) (excluded p) s between2 q2 v2 q2' rest2 \<longrightarrow>
                   length between2 \<le> length between"
      by blast
    from spec_pass.Insert [OF occ mx ih] replace_from_match [OF m, of t pre] gs g
    show ?thesis by simp
  qed
qed

lemma value_split_unique:
  "v @ q # r = v2 @ q2 # r2 \<Longrightarrow> \<forall>c \<in> set v. \<not> spec_quote c \<Longrightarrow> \<forall>c \<in> set v2. \<not> spec_quote c \<Longrightarrow>
   spec_quote q \<Longrightarrow> spec_quote q2 \<Longrightarrow> v = v2 \<and> q = q2 \<and> r = r2"
proof (induction v arbitrary: v2)
  case Nil
  then show ?case by (cases v2) auto
next
  case (Cons c v)
  then show ?case by (cases v2) auto
qed

lemma spec_occurrence_unique:
  assumes "spec_occurrence t a ex s k q v q' rest"
    and "spec_occurrence t a ex s k2 q2 v2 q2' rest2"
    and "length k = length k2"
  shows "k = k2 \<and> q = q2 \<and> v = v2 \<and> q' = q2' \<and> rest = rest2"
proof -
  from assms(1,2) have "t @ k @ a @ [q] @ v @ [q'] @ rest = t @ k2 @ a @ [q2] @ v2 @ [q2'] @ rest2"
    by (simp add: spec_occurrence_def)
  with assms(3) have k: "k = k2" and r: "q = q2" "v @ q' # rest = v2 @ q2' # rest2"
    by simp_all
  from value_split_unique [OF r(2)] assms(1,2) have "v = v2 \<and> q' = q2' \<and> rest = rest2"
    by (simp add: spec_occurrence_def)
  with k r show ?thesis by simp
qed

lemma spec_occurrence_nonempty: "\<not> spec_occurrence t a ex [] k q v q' rest"
  by (simp add: spec_occurrence_def)

lemma spec_pass_deterministic:
  "spec_pass t a ex b s out \<Longrightarrow> spec_pass t a ex b s out2 \<Longrightarrow> out = out2"
proof (induction arbitrary: out2 rule: spec_pass.induct)
  case Finished
  from Finished show ?case
    by (cases rule: spec_pass.cases) (simp_all add: spec_occurrence_nonempty)
next
  case (Keep c cs out)
  from Keep.prems show ?case
  proof (cases rule: spec_pass.cases)
    case k: (Keep out')
    with Keep.IH show ?thesis by simp
  next
    case i: (Insert between q v q' rest out')
    with Keep.hyps(1) show ?thesis by blast
  qed
next
  case (Insert s between q v q' rest out)
  from Insert.prems show ?case
  proof (cases rule: spec_pass.cases)
    case Finished
    with Insert.hyps(1) show ?thesis by (simp add: spec_occurrence_nonempty)
  next
    case k: (Keep c cs out')
    with Insert.hyps(1) show ?thesis by blast
  next
    case i: (Insert between2 q2 v2 q2' rest2 out')
    from i(2) Insert.hyps(2) have "length between2 \<le> length between" by blast
    moreover from Insert.hyps(1) i(3) have "length between \<le> length between2" by blast
    ultimately have "length between = length between2" by simp
    from spec_occurrence_unique [OF Insert.hyps(1) i(2) this]
    have e: "between = between2" "q = q2" "v = v2" "q' = q2'" "rest = rest2" by simp_all
    with i(4) Insert.IH have "out = out'" by simp
    with e i(1) show ?thesis by simp
  qed
qed

text \<open>
  C3. The claim: for every document and base path, exactly the attribute values in the
  four contexts (stylesheet link \<^verbatim>\<open>href\<close>, script \<^verbatim>\<open>src\<close>, image \<^verbatim>\<open>src\<close>, anchor
  \<^verbatim>\<open>href\<close>) are prefixed with the base path, apart from absolute URLs and, for
  anchors, fragments. The expressions compare text. They know lower-case names only:
  the \<^verbatim>\<open>href\<close> of an anchor written in capitals stays as it is. \<^verbatim>\<open><a\<close> is the
  beginning of other tag names: the \<^verbatim>\<open>href\<close> of an \<^verbatim>\<open>area\<close> element is prefixed. The
  greedy star takes the last attribute text of a tag: with a \<^verbatim>\<open>data-href\<close> after it,
  the \<^verbatim>\<open>href\<close> of a link stays and the other value is prefixed. And the base path
  is read as part of the replacement pattern: the base path \<^verbatim>\<open>$&\<close> puts the whole
  match in front of the value.
\<close>

theorem fixRelativePaths_contexts_counterexample:
  \<open>fixRelativePaths ''<A HREF="page.html">x</A>'' ''/s/abc/'' = ''<A HREF="page.html">x</A>''
   \<and> fixRelativePaths ''<area href="map.html">'' ''/s/abc/'' = ''<area href="/s/abc/map.html">''
   \<and> fixRelativePaths ''<link href="a.css" data-href="b">'' ''/s/abc/''
       = ''<link href="a.css" data-href="/s/abc/b">''
   \<and> fixRelativePaths ''<link href="style.css">'' ''$&''
       = ''<link href="<link href="style.css"style.css">''\<close>
  by code_simp

text \<open>
  C3, as amended. For every document and every base path without a dollar sign, the
  result of \<open>fixRelativePaths\<close> is the one text that the four passes of the second
  description give, in the order link \<^verbatim>\<open>href\<close>, script \<^verbatim>\<open>src\<close>, image \<^verbatim>\<open>src\<close>,
  anchor \<^verbatim>\<open>href\<close>: each pass prefixes with the base path exactly the values at which
  its pattern occurs as text (the tag text \<^verbatim>\<open><link\<close>, \<^verbatim>\<open><script\<close>, \<^verbatim>\<open><img\<close> or
  \<^verbatim>\<open><a\<close>, characters other than \<^verbatim>\<open>>\<close>, the attribute text \<^verbatim>\<open>href=\<close> or \<^verbatim>\<open>src=\<close>,
  a quote, the value up to the next quote), from left to right and without overlap,
  the last qualifying attribute text of a tag counting, and leaves alone the values
  that begin with \<^verbatim>\<open>http://\<close> or \<^verbatim>\<open>https://\<close> and, for \<^verbatim>\<open><a\<close> only, with \<^verbatim>\<open>#\<close>.
\<close>

theorem fixRelativePaths_textual_patterns:
  assumes "CHR ''$'' \<notin> set basePath"
  shows "spec_rewrite html basePath out \<longleftrightarrow> out = fixRelativePaths html basePath"
proof -
  let ?t = "''$1'' @ basePath @ ''$2$3''"
  let ?h1 = "replace html link_href ?t"
  let ?h2 = "replace ?h1 script_src ?t"
  let ?h3 = "replace ?h2 img_src ?t"
  let ?h4 = "replace ?h3 a_href ?t"
  have ex: "\<forall>e \<in> set (excluded p). \<forall>c \<in> set e. \<not> is_quote c"
    if "p \<in> {link_href, script_src, img_src, a_href}" for p
    using that by (auto simp: link_href_def script_src_def img_src_def a_href_def is_quote_def)
  have gs: "\<forall>m pre post g1 g2 g3.
              GetSubstitution m pre post [g1, g2, g3] ?t = g1 @ basePath @ g2 @ g3"
    using GetSubstitution_template [OF assms] by blast
  have p1: "spec_pass ''<link'' ''href='' [''http://'', ''https://''] basePath h (replace h link_href ?t)" for h
    using replace_from_spec_pass [OF ex gs, of link_href h "[]"]
    by (simp add: replace_def link_href_def)
  have p2: "spec_pass ''<script'' ''src='' [''http://'', ''https://''] basePath h (replace h script_src ?t)" for h
    using replace_from_spec_pass [OF ex gs, of script_src h "[]"]
    by (simp add: replace_def script_src_def)
  have p3: "spec_pass ''<img'' ''src='' [''http://'', ''https://''] basePath h (replace h img_src ?t)" for h
    using replace_from_spec_pass [OF ex gs, of img_src h "[]"]
    by (simp add: replace_def img_src_def)
  have p4: "spec_pass ''<a'' ''href='' [''http://'', ''https://'', ''#''] basePath h (replace h a_href ?t)" for h
    using replace_from_spec_pass [OF ex gs, of a_href h "[]"]
    by (simp add: replace_def a_href_def)
  have f: "fixRelativePaths html basePath = ?h4"
    by (simp add: fixRelativePaths_def Let_def)
  show ?thesis
  proof
    assume "spec_rewrite html basePath out"
    then obtain h1 h2 h3 where
      s1: "spec_pass ''<link'' ''href='' [''http://'', ''https://''] basePath html h1" and
      s2: "spec_pass ''<script'' ''src='' [''http://'', ''https://''] basePath h1 h2" and
      s3: "spec_pass ''<img'' ''src='' [''http://'', ''https://''] basePath h2 h3" and
      s4: "spec_pass ''<a'' ''href='' [''http://'', ''https://'', ''#''] basePath h3 out"
      by (auto simp: spec_rewrite_def)
    from spec_pass_deterministic [OF s1 p1] have "h1 = ?h1" .
    with spec_pass_deterministic [OF s2 p2] have "h2 = ?h2" by simp
    with spec_pass_deterministic [OF s3 p3] have "h3 = ?h3" by simp
    with spec_pass_deterministic [OF s4 p4] have "out = ?h4" by simp
    with f show "out = fixRelativePaths html basePath" by simp
  next
    assume "out = fixRelativePaths html basePath"
    with f have "out = ?h4" by simp
    with p1 [of html] p2 [of ?h1] p3 [of ?h2] p4 [of ?h3] show "spec_rewrite html basePath out"
      unfolding spec_rewrite_def by blast
  qed
qed

theorem fixRelativePaths_textual_patterns_witness:
  \<open>CHR ''$'' \<notin> set ''/s/abc/''
   \<and> spec_rewrite ''<link href="style.css">'' ''/s/abc/'' ''<link href="/s/abc/style.css">''
   \<and> spec_rewrite ''<a href="https://example.com">x</a>'' ''/s/abc/''
         ''<a href="https://example.com">x</a>''
   \<and> spec_rewrite ''<a href="#top">x</a>'' ''/s/abc/'' ''<a href="#top">x</a>''
   \<and> \<not> spec_rewrite ''<a href="#top">x</a>'' ''/s/abc/'' ''<a href="/s/abc/#top">x</a>''
   \<and> spec_rewrite
         ''<html><link rel="stylesheet" href="style.css"><script src='app.js'></script><img alt="logo" src="img/logo.png"><a href="about.html">About</a><a href="#top">Top</a><script src="http://cdn.example/x.js"></script></html>''
         ''/s/abc/''
         ''<html><link rel="stylesheet" href="/s/abc/style.css"><script src='/s/abc/app.js'></script><img alt="logo" src="/s/abc/img/logo.png"><a href="/s/abc/about.html">About</a><a href="#top">Top</a><script src="http://cdn.example/x.js"></script></html>''\<close>
proof -
  have b: "CHR ''$'' \<notin> set ''/s/abc/''" by simp
  note t = fixRelativePaths_textual_patterns [OF b]
  have 1: \<open>fixRelativePaths ''<link href="style.css">'' ''/s/abc/'' = ''<link href="/s/abc/style.css">''\<close>
    by code_simp
  have 2: \<open>fixRelativePaths ''<a href="https://example.com">x</a>'' ''/s/abc/''
            = ''<a href="https://example.com">x</a>''\<close>
    by code_simp
  have 3: \<open>fixRelativePaths ''<a href="#top">x</a>'' ''/s/abc/'' = ''<a href="#top">x</a>''\<close>
    by code_simp
  have 4: \<open>fixRelativePaths
         ''<html><link rel="stylesheet" href="style.css"><script src='app.js'></script><img alt="logo" src="img/logo.png"><a href="about.html">About</a><a href="#top">Top</a><script src="http://cdn.example/x.js"></script></html>''
         ''/s/abc/''
       = ''<html><link rel="stylesheet" href="/s/abc/style.css"><script src='/s/abc/app.js'></script><img alt="logo" src="/s/abc/img/logo.png"><a href="/s/abc/about.html">About</a><a href="#top">Top</a><script src="http://cdn.example/x.js"></script></html>''\<close>
    by code_simp
  have s1: \<open>spec_rewrite ''<link href="style.css">'' ''/s/abc/'' ''<link href="/s/abc/style.css">''\<close>
    unfolding t 1 ..
  have s2: \<open>spec_rewrite ''<a href="https://example.com">x</a>'' ''/s/abc/''
         ''<a href="https://example.com">x</a>''\<close>
    unfolding t 2 ..
  have s3: \<open>spec_rewrite ''<a href="#top">x</a>'' ''/s/abc/'' ''<a href="#top">x</a>''\<close>
    unfolding t 3 ..
  have n3: \<open>\<not> spec_rewrite ''<a href="#top">x</a>'' ''/s/abc/'' ''<a href="/s/abc/#top">x</a>''\<close>
    unfolding t 3 by simp
  have s4: \<open>spec_rewrite
         ''<html><link rel="stylesheet" href="style.css"><script src='app.js'></script><img alt="logo" src="img/logo.png"><a href="about.html">About</a><a href="#top">Top</a><script src="http://cdn.example/x.js"></script></html>''
         ''/s/abc/''
         ''<html><link rel="stylesheet" href="/s/abc/style.css"><script src='/s/abc/app.js'></script><img alt="logo" src="/s/abc/img/logo.png"><a href="/s/abc/about.html">About</a><a href="#top">Top</a><script src="http://cdn.example/x.js"></script></html>''\<close>
    unfolding t 4 ..
  from b s1 s2 s3 n3 s4 show ?thesis by blast
qed

text \<open>
  C8. Rewriting is not idempotent: the rewritten \<^verbatim>\<open><link href="style.css">\<close> is
  rewritten again, and the value that already starts with the base path gets the
  base path a second time.
\<close>

theorem fixRelativePaths_not_idempotent:
  \<open>fixRelativePaths ''<link href="style.css">'' ''/s/abc/'' = ''<link href="/s/abc/style.css">''
   \<and> fixRelativePaths ''<link href="/s/abc/style.css">'' ''/s/abc/''
       = ''<link href="/s/abc//s/abc/style.css">''
   \<and> (\<exists>html basePath.
         fixRelativePaths (fixRelativePaths html basePath) basePath \<noteq> fixRelativePaths html basePath)\<close>
proof -
  have 1: \<open>fixRelativePaths ''<link href="style.css">'' ''/s/abc/'' = ''<link href="/s/abc/style.css">''\<close>
    by code_simp
  have 2: \<open>fixRelativePaths ''<link href="/s/abc/style.css">'' ''/s/abc/''
       = ''<link href="/s/abc//s/abc/style.css">''\<close>
    by code_simp
  have \<open>fixRelativePaths (fixRelativePaths ''<link href="style.css">'' ''/s/abc/'') ''/s/abc/''
        \<noteq> fixRelativePaths ''<link href="style.css">'' ''/s/abc/''\<close>
    unfolding 1 2 by simp
  then show ?thesis using 1 2 by blast
qed

end
